theory Spec2Isabelle
  imports Main "HOL-Library.Sublist"
begin

section \<open>Text as the Python source sees it\<close>

text \<open>
  A Python \<open>str\<close> is a sequence of Unicode code points, and the regular expressions and
  string methods of \<open>multi_strategy_convert.py\<close> work on code points (the Hangul literals
  of the source are single code points each). A text is therefore a list of code points,
  written as natural numbers; \<open>0xA\<close> is the newline.
\<close>

type_synonym ustr = "nat list"

abbreviation NL :: nat where "NL \<equiv> 0xA"

text \<open>
  The whitespace of \<open>str.strip()\<close> and of the regular expression class \<open>\s\<close> on a
  \<open>str\<close> pattern (both are \<open>str.isspace\<close> in CPython).
\<close>

definition is_space :: "nat \<Rightarrow> bool" where
  "is_space c \<longleftrightarrow>
     (0x9 \<le> c \<and> c \<le> 0xD) \<or> (0x1C \<le> c \<and> c \<le> 0x20) \<or> c = 0x85 \<or> c = 0xA0 \<or>
     c = 0x1680 \<or> (0x2000 \<le> c \<and> c \<le> 0x200A) \<or> c = 0x2028 \<or> c = 0x2029 \<or>
     c = 0x202F \<or> c = 0x205F \<or> c = 0x3000"

text \<open>
  The class \<open>\d\<close> on a \<open>str\<close> pattern: the decimal digits of every script (Unicode
  category Nd, here the table of Unicode 14, the one of Python 3.11), as ranges of ten
  code points starting at the listed zeros, and the mathematical digits
  \<open>0x1D7CE .. 0x1D7FF\<close>.
\<close>

definition digit_zeros :: "nat list" where
  "digit_zeros =
    [0x30, 0x660, 0x6F0, 0x7C0, 0x966, 0x9E6, 0xA66, 0xAE6, 0xB66, 0xBE6, 0xC66, 0xCE6,
     0xD66, 0xDE6, 0xE50, 0xED0, 0xF20, 0x1040, 0x1090, 0x17E0, 0x1810, 0x1946, 0x19D0,
     0x1A80, 0x1A90, 0x1B50, 0x1BB0, 0x1C40, 0x1C50, 0xA620, 0xA8D0, 0xA900, 0xA9D0,
     0xA9F0, 0xAA50, 0xABF0, 0xFF10, 0x104A0, 0x10D30, 0x11066, 0x110F0, 0x11136,
     0x111D0, 0x112F0, 0x11450, 0x114D0, 0x11650, 0x116C0, 0x11730, 0x118E0, 0x11950,
     0x11C50, 0x11D50, 0x11DA0, 0x16A60, 0x16AC0, 0x16B50, 0x1E140, 0x1E2F0, 0x1E950,
     0x1FBF0]"

definition is_digit :: "nat \<Rightarrow> bool" where
  "is_digit c \<longleftrightarrow>
     list_ex (\<lambda>z. z \<le> c \<and> c \<le> z + 9) digit_zeros \<or> (0x1D7CE \<le> c \<and> c \<le> 0x1D7FF)"

text \<open>\<open>s.strip()\<close>: whitespace removed at both ends.\<close>

definition strip :: "ustr \<Rightarrow> ustr" where
  "strip s = rev (dropWhile is_space (rev (dropWhile is_space s)))"

text \<open>
  \<open>s.split('\n')\<close> and \<open>re.split(r'[,.\n]', s)\<close>: the pieces between the separator
  characters, empty pieces included; the empty text gives one empty piece.
\<close>

fun split_by :: "(nat \<Rightarrow> bool) \<Rightarrow> ustr \<Rightarrow> ustr list" where
  "split_by P [] = [[]]"
| "split_by P (c # s) =
     (if P c then [] # split_by P s
      else (case split_by P s of [] \<Rightarrow> [[c]] | l # ls \<Rightarrow> (c # l) # ls))"

definition split_nl :: "ustr \<Rightarrow> ustr list" where
  "split_nl s = split_by (\<lambda>c. c = NL) s"

text \<open>\<open>"\n".join(lines)\<close>.\<close>

fun join_nl :: "ustr list \<Rightarrow> ustr" where
  "join_nl [] = []"
| "join_nl [l] = l"
| "join_nl (l # ls) = l @ NL # join_nl ls"

text \<open>
  The end anchor \<open>$\<close> without \<open>re.MULTILINE\<close>, seen from the rest of the text at the
  position tried: at the end, or just before a newline that is the last character.
\<close>

definition at_eos :: "ustr \<Rightarrow> bool" where
  "at_eos s \<longleftrightarrow> s = [] \<or> s = [NL]"

section \<open>\<open>clean_text\<close>\<close>

text \<open>
  The two table header rows (\<open>U+C0AC U+B791 ' ' U+B3C8 ' ' U+C0AC U+C5C5\<close> and
  \<open>U+C2B9 U+C9C4 ' ' U+CDE8 U+C5C5 ' ' U+B9E4 U+B9E4\<close>) and the clumped form of the
  first one, as the source tests them with \<open>in\<close>.
\<close>

definition row_love_money_business :: ustr where
  "row_love_money_business = [0xC0AC, 0xB791, 0x20, 0xB3C8, 0x20, 0xC0AC, 0xC5C5]"

definition row_promotion_job_sale :: ustr where
  "row_promotion_job_sale = [0xC2B9, 0xC9C4, 0x20, 0xCDE8, 0xC5C5, 0x20, 0xB9E4, 0xB9E4]"

definition row_clumped :: ustr where
  "row_clumped = [0xC0AC, 0xB791, 0xB3C8, 0xC0AC, 0xC5C5]"

text \<open>The rating alphabet \<open>[U+C0C1 U+C911 U+D558]\<close> (high, middle, low).\<close>

definition is_rating :: "nat \<Rightarrow> bool" where
  "is_rating c \<longleftrightarrow> c = 0xC0C1 \<or> c = 0xC911 \<or> c = 0xD558"

text \<open>
  \<open>re.match(r'^\s*[R](\s+[R])+\s*$', line)\<close> with \<open>R\<close> the rating alphabet.
  \<open>rating_groups seen s\<close> is the match of \<open>(\s+[R])* \s* $\<close> at \<open>s\<close>, where \<open>seen\<close>
  says that one group \<open>\s+[R]\<close> has been matched already. A rating symbol is no
  whitespace, so the greedy \<open>\s+\<close> takes the whole run of whitespace and giving back
  part of it cannot help; and \<open>\s*$\<close> holds exactly when only whitespace is left.
\<close>

function rating_groups :: "bool \<Rightarrow> ustr \<Rightarrow> bool" where
  "rating_groups seen s =
     (case dropWhile is_space s of
        [] \<Rightarrow> seen
      | c # r \<Rightarrow> takeWhile is_space s \<noteq> [] \<and> is_rating c \<and> rating_groups True r)"
  by pat_completeness auto
termination
proof (relation "measure (\<lambda>(seen, s). length s)")
  show "wf (measure (\<lambda>(seen, s). length s))" by simp
next
  fix seen :: bool and s :: ustr and c r
  assume "dropWhile is_space s = c # r"
  moreover have "length (dropWhile is_space s) \<le> length s"
    by (rule length_dropWhile_le)
  ultimately show "((True, r), (seen, s)) \<in> measure (\<lambda>(seen, s). length s)"
    by simp
qed

definition match_rating_row :: "ustr \<Rightarrow> bool" where
  "match_rating_row line =
     (case dropWhile is_space line of
        [] \<Rightarrow> False
      | c # r \<Rightarrow> is_rating c \<and> rating_groups False r)"

text \<open>
  \<open>re.match(r'^[R]{5,}$', s)\<close>: the greedy run of rating symbols has at least five of
  them and ends where \<open>$\<close> holds (a shorter run would be followed by a rating symbol).
\<close>

definition match_rating_clump :: "ustr \<Rightarrow> bool" where
  "match_rating_clump s \<longleftrightarrow>
     5 \<le> length (takeWhile is_rating s) \<and> at_eos (dropWhile is_rating s)"

text \<open>The body of the loop over the lines: the line is skipped (\<open>continue\<close>).\<close>

definition skipped_line :: "ustr \<Rightarrow> bool" where
  "skipped_line line \<longleftrightarrow>
     sublist row_love_money_business line \<or> sublist row_promotion_job_sale line \<or>
     sublist row_clumped line \<or>
     match_rating_row line \<or>
     match_rating_clump (strip line)"

definition cleaned_lines :: "ustr \<Rightarrow> ustr list" where
  "cleaned_lines text = filter (\<lambda>line. \<not> skipped_line line) (split_nl text)"

definition clean_text :: "ustr \<Rightarrow> ustr" where
  "clean_text text = (if text = [] then [] else strip (join_nl (cleaned_lines text)))"

section \<open>\<open>preprocess_pypdf\<close>\<close>

text \<open>A literal of a pattern at the head of the text: the number of characters matched.\<close>

definition lit :: "ustr \<Rightarrow> ustr \<Rightarrow> nat option" where
  "lit p s = (if prefix p s then Some (length p) else None)"

text \<open>
  Literals separated by \<open>\s*\<close> (as \<open>1\)\s*K\<close>, \<open>2\)\s*A\s*B\<close>) at the head of the
  text. No literal of the source starts with whitespace, so the greedy \<open>\s*\<close> takes
  the whole run and giving back part of it cannot help.
\<close>

fun ws_lits :: "ustr list \<Rightarrow> ustr \<Rightarrow> nat option" where
  "ws_lits [] s = Some 0"
| "ws_lits (p # ps) s =
     (let w = length (takeWhile is_space s) in
      case lit p (drop w s) of
        None \<Rightarrow> None
      | Some n \<Rightarrow> (case ws_lits ps (drop (w + n) s) of
                     None \<Rightarrow> None
                   | Some m \<Rightarrow> Some (w + n + m)))"

definition lits :: "ustr list \<Rightarrow> ustr \<Rightarrow> nat option" where
  "lits ps s =
     (case ps of
        [] \<Rightarrow> Some 0
      | p # qs \<Rightarrow> (case lit p s of
                     None \<Rightarrow> None
                   | Some n \<Rightarrow> (case ws_lits qs (drop n s) of
                                  None \<Rightarrow> None
                                | Some m \<Rightarrow> Some (n + m))))"

text \<open>
  The words of the section markers: \<open>1)\<close> .. \<open>4)\<close>, \<open>U+D0A4 U+C6CC U+B4DC\<close>
  (keyword), \<open>U+D68C U+D654 U+C801\<close> (pictorial), \<open>U+C124 U+BA85\<close> (explanation),
  \<open>U+C2E4 U+C804\<close> (practical), \<open>U+C0C1 U+B2F4\<close> (consultation) and \<open>TIP\<close>.
\<close>

definition n1 :: ustr where "n1 = [0x31, 0x29]"
definition n2 :: ustr where "n2 = [0x32, 0x29]"
definition n3 :: ustr where "n3 = [0x33, 0x29]"
definition n4 :: ustr where "n4 = [0x34, 0x29]"
definition w_keyword :: ustr where "w_keyword = [0xD0A4, 0xC6CC, 0xB4DC]"
definition w_pictorial :: ustr where "w_pictorial = [0xD68C, 0xD654, 0xC801]"
definition w_explanation :: ustr where "w_explanation = [0xC124, 0xBA85]"
definition w_practical :: ustr where "w_practical = [0xC2E4, 0xC804]"
definition w_consult :: ustr where "w_consult = [0xC0C1, 0xB2F4]"
definition w_tip :: ustr where "w_tip = [0x54, 0x49, 0x50]"

text \<open>
  The names after the index in the header pattern of \<open>preprocess_pypdf\<close>, in the
  order of the alternation: \<open>Ace\<close> .. \<open>King\<close>, then \<open>U+CEF5\<close> (cup),
  \<open>U+C9C0 U+D321 U+C774\<close> (wand), \<open>U+B3D9 U+C804\<close> (coin), \<open>U+AC80\<close> (sword).
\<close>

definition suit_names :: "ustr list" where
  "suit_names =
    [[0x41, 0x63, 0x65], [0x54, 0x77, 0x6F], [0x54, 0x68, 0x72, 0x65, 0x65],
     [0x46, 0x6F, 0x75, 0x72], [0x46, 0x69, 0x76, 0x65], [0x53, 0x69, 0x78],
     [0x53, 0x65, 0x76, 0x65, 0x6E], [0x45, 0x69, 0x67, 0x68, 0x74],
     [0x4E, 0x69, 0x6E, 0x65], [0x54, 0x65, 0x6E], [0x50, 0x61, 0x67, 0x65],
     [0x4B, 0x6E, 0x69, 0x67, 0x68, 0x74], [0x51, 0x75, 0x65, 0x65, 0x6E],
     [0x4B, 0x69, 0x6E, 0x67], [0xCEF5], [0xC9C0, 0xD321, 0xC774], [0xB3D9, 0xC804],
     [0xAC80]]"

text \<open>
  \<open>(?:\d+|Ace|...)\s+\<close> at the head of the text: the alternatives in their order,
  each followed by the greedy \<open>\s+\<close>; the first alternative after which \<open>\s+\<close>
  matches wins. \<open>\d+\<close> is tried with its longest run only: after a shorter run comes a
  digit, where \<open>\s+\<close> fails.
\<close>

fun first_alt :: "nat list \<Rightarrow> ustr \<Rightarrow> nat option" where
  "first_alt [] s = None"
| "first_alt (k # ks) s =
     (let w = length (takeWhile is_space (drop k s)) in
      if 0 < w then Some (k + w) else first_alt ks s)"

definition name_alts :: "ustr \<Rightarrow> nat list" where
  "name_alts s =
     (let d = length (takeWhile is_digit s) in (if 0 < d then [d] else [])) @
     map length (filter (\<lambda>w. prefix w s) suit_names)"

text \<open>
  \<open>\d+\.\s+(?:\d+|Ace|...)\s+\<close> at the head of the text. The runs of \<open>\d+\<close> and of
  the first \<open>\s+\<close> are the longest ones: a period is no digit, and no alternative
  starts with whitespace.
\<close>

definition pypdf_header :: "ustr \<Rightarrow> nat option" where
  "pypdf_header s =
     (let d = length (takeWhile is_digit s) in
      if d = 0 then None
      else case drop d s of
        [] \<Rightarrow> None
      | c # r \<Rightarrow>
          if c \<noteq> 0x2E then None
          else let w = length (takeWhile is_space r) in
            if w = 0 then None
            else (case first_alt (name_alts (drop w r)) (drop w r) of
                    None \<Rightarrow> None
                  | Some n \<Rightarrow> Some (d + 1 + w + n)))"

text \<open>
  \<open>re.sub(r'(?<!\n)(P)', r'\n\1', text)\<close>: from left to right, at the first position
  that is not preceded by a newline and where \<open>P\<close> matches, a newline is put before the
  match and the search goes on behind the match. \<open>prev\<close> is the character before the
  position, in the text that is searched. The patterns of the source match no empty text.
\<close>

fun sub_newline_before :: "(ustr \<Rightarrow> nat option) \<Rightarrow> nat option \<Rightarrow> ustr \<Rightarrow> ustr" where
  "sub_newline_before P prev [] = []"
| "sub_newline_before P prev (c # s) =
     (case (if prev = Some NL then None else P (c # s)) of
        Some (Suc n) \<Rightarrow>
          NL # c # take n s @
            sub_newline_before P (Some (last (c # take n s))) (drop n s)
      | _ \<Rightarrow> c # sub_newline_before P (Some c) s)"

definition preprocess_pypdf :: "ustr \<Rightarrow> ustr" where
  "preprocess_pypdf text =
     (let text = sub_newline_before pypdf_header None text;
          text = sub_newline_before (lits [n1, w_keyword]) None text;
          text = sub_newline_before (lits [n2, w_pictorial]) None text;
          text = sub_newline_before (lits [n3, w_practical]) None text;
          text = sub_newline_before (lits [n4, w_consult]) None text
      in text)"

section \<open>\<open>parse_card_block\<close>\<close>

text \<open>The dictionary that \<open>parse_card_block\<close> returns.\<close>

record card =
  card_name :: ustr
  meaning_up :: ustr
  meaning_down :: ustr
  "keywords" :: "ustr list"

text \<open>The literal \<open>"1) K"\<close> with one blank, as \<open>in\<close> and \<open>str.split\<close> use it.\<close>

definition marker_keyword :: ustr where
  "marker_keyword = n1 @ [0x20] @ w_keyword"

text \<open>\<open>re.sub(r'^\d+\.\s+', '', s)\<close>: the index, the period and the whitespace at the start.\<close>

definition strip_index :: "ustr \<Rightarrow> ustr" where
  "strip_index s =
     (let d = length (takeWhile is_digit s) in
      if d = 0 then s
      else case drop d s of
        [] \<Rightarrow> s
      | c # r \<Rightarrow> if c = 0x2E \<and> takeWhile is_space r \<noteq> [] then dropWhile is_space r else s)"

text \<open>\<open>s.split(sep)[0]\<close>: the text before the first occurrence of \<open>sep\<close>.\<close>

fun before_first :: "ustr \<Rightarrow> ustr \<Rightarrow> ustr" where
  "before_first sep [] = []"
| "before_first sep (c # s) = (if prefix sep (c # s) then [] else c # before_first sep s)"

text \<open>
  The lazy group \<open>(.*?)\<close> under \<open>re.DOTALL\<close>, followed by the alternation \<open>stop\<close>: the
  shortest text after which one of the alternatives matches.
\<close>

fun lazy_group :: "(ustr \<Rightarrow> bool) \<Rightarrow> ustr \<Rightarrow> ustr option" where
  "lazy_group stop [] = (if stop [] then Some [] else None)"
| "lazy_group stop (c # s) =
     (if stop (c # s) then Some [] else map_option ((#) c) (lazy_group stop s))"

text \<open>
  \<open>re.search\<close> of \<open>head(.*?)(?:stop)\<close>: group 1 of the match at the leftmost position
  where the whole pattern matches, \<open>None\<close> when there is none.
\<close>

fun search_group :: "(ustr \<Rightarrow> nat option) \<Rightarrow> (ustr \<Rightarrow> bool) \<Rightarrow> ustr \<Rightarrow> ustr option" where
  "search_group head stop [] =
     (case head [] of
        None \<Rightarrow> None
      | Some n \<Rightarrow> lazy_group stop [])"
| "search_group head stop (c # s) =
     (case head (c # s) of
        None \<Rightarrow> search_group head stop s
      | Some n \<Rightarrow> (case lazy_group stop (drop n (c # s)) of
                     None \<Rightarrow> search_group head stop s
                   | Some g \<Rightarrow> Some g))"

definition matches :: "ustr list \<Rightarrow> ustr \<Rightarrow> bool" where
  "matches ps s \<longleftrightarrow> lits ps s \<noteq> None"

definition keywords_match :: "ustr \<Rightarrow> ustr option" where
  "keywords_match block =
     search_group (lits [n1, w_keyword])
       (\<lambda>s. matches [n2, w_pictorial] s \<or> matches [n3, w_practical] s \<or>
            matches [n4, w_consult] s \<or> at_eos s) block"

definition desc_match :: "ustr \<Rightarrow> ustr option" where
  "desc_match block =
     search_group (lits [n2, w_pictorial, w_explanation])
       (\<lambda>s. matches [n3, w_practical] s \<or> matches [n4, w_consult] s \<or> at_eos s) block"

definition practical_match :: "ustr \<Rightarrow> ustr option" where
  "practical_match block =
     search_group (lits [n3, w_practical, w_consult])
       (\<lambda>s. matches [n4, w_consult] s \<or> at_eos s) block"

definition tip_match :: "ustr \<Rightarrow> ustr option" where
  "tip_match block = search_group (lits [n4, w_consult, w_tip]) at_eos block"

text \<open>One pass of the loop over \<open>raw_keywords\<close>, before the test \<open>if k\<close>.\<close>

definition keyword_of :: "ustr \<Rightarrow> ustr" where
  "keyword_of k =
     (let k = strip k in
      case k of
        [] \<Rightarrow> k
      | c # r \<Rightarrow> if c = 0x2D then strip r else k)"

definition keywords_list :: "ustr \<Rightarrow> ustr list" where
  "keywords_list keywords_text =
     (if keywords_text = [] then []
      else filter (\<lambda>k. k \<noteq> [])
             (map keyword_of (split_by (\<lambda>c. c = 0x2C \<or> c = 0x2E \<or> c = NL) keywords_text)))"

text \<open>The labels \<open>"[A B]\n"\<close> of the two parts of \<open>meaning_up\<close>.\<close>

definition label_desc :: ustr where
  "label_desc = [0x5B] @ w_pictorial @ [0x20] @ w_explanation @ [0x5D, NL]"

definition label_practical :: ustr where
  "label_practical = [0x5B] @ w_practical @ [0x20] @ w_consult @ [0x5D, NL]"

definition build_meaning_up :: "ustr \<Rightarrow> ustr \<Rightarrow> ustr" where
  "build_meaning_up desc_text practical_text =
     strip ((if desc_text \<noteq> [] then label_desc @ desc_text @ [NL, NL] else []) @
            (if practical_text \<noteq> [] then label_practical @ practical_text else []))"

text \<open>The four fields, as \<open>parse_card_block\<close> computes them from the block.\<close>

definition block_name :: "ustr \<Rightarrow> ustr" where
  "block_name first_line =
     (let raw_header = strip first_line;
          name = strip_index raw_header
      in if sublist marker_keyword name
         then strip (before_first marker_keyword name) else name)"

definition block_keywords :: "ustr \<Rightarrow> ustr list" where
  "block_keywords block =
     keywords_list (clean_text (case keywords_match block of None \<Rightarrow> [] | Some g \<Rightarrow> g))"

definition block_meaning_up :: "ustr \<Rightarrow> ustr" where
  "block_meaning_up block =
     (let desc_text = (case desc_match block of None \<Rightarrow> [] | Some g \<Rightarrow> clean_text g);
          practical_text =
            (case practical_match block of None \<Rightarrow> [] | Some g \<Rightarrow> clean_text g)
      in build_meaning_up desc_text practical_text)"

definition block_meaning_down :: "ustr \<Rightarrow> ustr" where
  "block_meaning_down block =
     (case tip_match block of None \<Rightarrow> [] | Some g \<Rightarrow> clean_text g)"

text \<open>
  \<open>parse_card_block\<close>: \<open>None\<close> for the Python \<open>None\<close>. The first test is the source's
  \<open>if not lines\<close>.
\<close>

definition parse_card_block :: "ustr \<Rightarrow> card option" where
  "parse_card_block block =
     (case split_nl (strip block) of
        [] \<Rightarrow> None
      | first_line # _ \<Rightarrow>
          if block_meaning_up block = [] \<and> block_meaning_down block = [] \<and>
             block_keywords block = []
          then None
          else Some \<lparr>card_name = block_name first_line,
                     meaning_up = block_meaning_up block,
                     meaning_down = block_meaning_down block,
                     keywords = block_keywords block\<rparr>)"

section \<open>\<open>parse_full_text\<close>\<close>

text \<open>
  \<open>\s+[^\n]+\<close> at the head of the text, with the backtracking of the greedy \<open>\s+\<close>
  written out: \<open>\s+\<close> holds \<open>k\<close> characters of the run of whitespace, first the whole
  run, then one less each time, until \<open>[^\n]+\<close> finds a character that is no newline
  behind it; \<open>[^\n]+\<close> then runs to the end of its line. (Giving back whitespace helps
  when the run ends the text: a blank of the run becomes the content.)
\<close>

fun ws_then_line :: "nat \<Rightarrow> ustr \<Rightarrow> nat option" where
  "ws_then_line 0 s = None"
| "ws_then_line (Suc k) s =
     (let content = takeWhile (\<lambda>c. c \<noteq> NL) (drop (Suc k) s) in
      if content \<noteq> [] then Some (Suc k + length content) else ws_then_line k s)"

text \<open>
  The group \<open>\s*\d+\.\s+[^\n]+\<close> at the head of the text (the text behind the newline
  that starts the match): the number of characters matched. \<open>\s*\<close> and \<open>\d+\<close> take their
  longest runs: a digit is no whitespace and a period is no digit.
\<close>

definition header_match :: "ustr \<Rightarrow> nat option" where
  "header_match s =
     (let w = length (takeWhile is_space s);
          d = length (takeWhile is_digit (drop w s)) in
      if d = 0 then None
      else case drop (w + d) s of
        [] \<Rightarrow> None
      | c # r \<Rightarrow>
          if c \<noteq> 0x2E then None
          else (case ws_then_line (length (takeWhile is_space r)) r of
                  None \<Rightarrow> None
                | Some n \<Rightarrow> Some (w + d + 1 + n)))"

text \<open>
  \<open>re.split(r'\n(\s*\d+\.\s+[^\n]+)', text)\<close>: the text between the matches and group 1
  of each match, in turn, starting and ending with a text between matches.
\<close>

fun split_headers :: "ustr \<Rightarrow> ustr list" where
  "split_headers [] = [[]]"
| "split_headers (c # s) =
     (case (if c = NL then header_match s else None) of
        Some n \<Rightarrow> [] # take n s # split_headers (drop n s)
      | None \<Rightarrow> (case split_headers s of [] \<Rightarrow> [[c]] | p # ps \<Rightarrow> (c # p) # ps))"


fun card_blocks :: "ustr list \<Rightarrow> ustr list" where
  "card_blocks [] = []"
| "card_blocks [header] =
     (let full_block = strip header @ [NL] in
      if sublist marker_keyword full_block then [full_block] else [])"
| "card_blocks (header # content # parts) =
     (let full_block = strip header @ NL # content in
      if sublist marker_keyword full_block then full_block # card_blocks parts
      else card_blocks parts)"

definition header_parts :: "ustr \<Rightarrow> ustr list" where
  "header_parts text = drop 1 (split_headers (NL # text))"

definition segment :: "ustr \<Rightarrow> ustr list" where
  "segment text = card_blocks (header_parts text)"

definition parse_full_text :: "ustr \<Rightarrow> card list" where
  "parse_full_text text = List.map_filter parse_card_block (segment text)"

section \<open>The strategies\<close>

text \<open>
  A backend yields the texts of the pages, \<open>None\<close> for a page without text; the whole
  reading is \<open>None\<close> when the backend raises, which the strategy catches.
\<close>

fun add_pages :: "(ustr \<Rightarrow> ustr) \<Rightarrow> ustr \<Rightarrow> ustr option list \<Rightarrow> ustr" where
  "add_pages repair full_text [] = full_text"
| "add_pages repair full_text (page # pages) =
     (case page of
        None \<Rightarrow> add_pages repair full_text pages
      | Some text \<Rightarrow>
          if text \<noteq> [] then add_pages repair (full_text @ repair text @ [NL]) pages
          else add_pages repair full_text pages)"

definition strategy_pdfplumber :: "ustr option list option \<Rightarrow> card list" where
  "strategy_pdfplumber reading =
     (case reading of
        None \<Rightarrow> []
      | Some pages \<Rightarrow> parse_full_text (add_pages (\<lambda>text. text) [] pages))"

definition strategy_pymupdf :: "ustr option list option \<Rightarrow> card list" where
  "strategy_pymupdf reading =
     (case reading of
        None \<Rightarrow> []
      | Some pages \<Rightarrow> parse_full_text (add_pages (\<lambda>text. text) [] pages))"

definition strategy_pypdf :: "ustr option list option \<Rightarrow> card list" where
  "strategy_pypdf reading =
     (case reading of
        None \<Rightarrow> []
      | Some pages \<Rightarrow> parse_full_text (add_pages preprocess_pypdf [] pages))"

section \<open>The statements of the specification\<close>

text \<open>
  The three backends, the strategy and the repair of each, and the document text that
  the strategy of a backend builds from the pages (the value of \<open>full_text\<close> when the
  loop over the pages ends).
\<close>

datatype backend = Pdfplumber | PyMuPDF | PyPDF

fun strategy :: "backend \<Rightarrow> ustr option list option \<Rightarrow> card list" where
  "strategy Pdfplumber = strategy_pdfplumber"
| "strategy PyMuPDF = strategy_pymupdf"
| "strategy PyPDF = strategy_pypdf"

fun repair_of :: "backend \<Rightarrow> ustr \<Rightarrow> ustr" where
  "repair_of PyPDF = preprocess_pypdf"
| "repair_of _ = (\<lambda>text. text)"

definition full_text_of :: "backend \<Rightarrow> ustr option list \<Rightarrow> ustr" where
  "full_text_of b pages = add_pages (repair_of b) [] pages"

text \<open>
  The pages that count (those with a text that is not empty), and the document text as
  the specification words it: the repaired pages with a newline between them.
\<close>

definition nonempty_pages :: "ustr option list \<Rightarrow> ustr list" where
  "nonempty_pages pages = filter (\<lambda>t. t \<noteq> []) (List.map_filter (\<lambda>p. p) pages)"

definition joined_pages :: "backend \<Rightarrow> ustr option list \<Rightarrow> ustr" where
  "joined_pages b pages = join_nl (map (repair_of b) (nonempty_pages pages))"

text \<open>
  The block of the specification's example,
  \<open>"1. Entity A\n1) K\n- kw1, kw2\n2) P E\ntext-b\n4) C TIP\ntip-d"\<close> with the
  marker words of the source for \<open>K\<close>, \<open>P E\<close> and \<open>C\<close>.
\<close>

definition example_block :: ustr where
  "example_block =
    [0x31, 0x2E, 0x20, 0x45, 0x6E, 0x74, 0x69, 0x74, 0x79, 0x20, 0x41, NL,
     0x31, 0x29, 0x20, 0xD0A4, 0xC6CC, 0xB4DC, NL,
     0x2D, 0x20, 0x6B, 0x77, 0x31, 0x2C, 0x20, 0x6B, 0x77, 0x32, NL,
     0x32, 0x29, 0x20, 0xD68C, 0xD654, 0xC801, 0x20, 0xC124, 0xBA85, NL,
     0x74, 0x65, 0x78, 0x74, 0x2D, 0x62, NL,
     0x34, 0x29, 0x20, 0xC0C1, 0xB2F4, 0x20, 0x54, 0x49, 0x50, NL,
     0x74, 0x69, 0x70, 0x2D, 0x64]"


text \<open>
  The header pattern \<open>\n\s*\d+\.\s+[^\n]+\<close> occurs in a text: it matches at one of
  the newlines of the text.
\<close>

fun header_occurs :: "ustr \<Rightarrow> bool" where
  "header_occurs [] = False"
| "header_occurs (c # s) = ((c = NL \<and> header_match s \<noteq> None) \<or> header_occurs s)"

text \<open>A text whose first line is a header: \<open>"1. A\n1) K\nk"\<close>.\<close>

definition first_line_text :: ustr where
  "first_line_text =
    [0x31, 0x2E, 0x20, 0x41, NL, 0x31, 0x29, 0x20, 0xD0A4, 0xC6CC, 0xB4DC, NL, 0x6B]"

text \<open>A block with nothing but a keyword: \<open>"1) K a"\<close>.\<close>

definition keyword_block :: ustr where
  "keyword_block = [0x31, 0x29, 0x20, 0xD0A4, 0xC6CC, 0xB4DC, 0x20, 0x61]"

text \<open>A text without a header: \<open>"ab\n3.5 c"\<close>.\<close>

definition plain_text :: ustr where
  "plain_text = [0x61, 0x62, NL, 0x33, 0x2E, 0x35, 0x20, 0x63]"

text \<open>A block whose keywords carry a bullet, blanks and empty pieces: \<open>"1)K\n- x y ,.z\n"\<close>.\<close>

definition dash_block :: ustr where
  "dash_block =
    [0x31, 0x29, 0xD0A4, 0xC6CC, 0xB4DC, NL,
     0x2D, 0x20, 0x78, 0x20, 0x79, 0x20, 0x2C, 0x2E, 0x7A, NL]"

text \<open>
  The words of the specification for the lines that the rating rules remove. The tokens
  of a line are its longest runs of characters that are no whitespace.
\<close>

function tokens :: "ustr \<Rightarrow> ustr list" where
  "tokens s =
     (case dropWhile is_space s of
        [] \<Rightarrow> []
      | c # r \<Rightarrow>
          (c # takeWhile (\<lambda>x. \<not> is_space x) r) # tokens (dropWhile (\<lambda>x. \<not> is_space x) r))"
  by pat_completeness auto
termination
proof (relation "measure length")
  show "wf (measure length)" by simp
next
  fix s :: ustr and c r
  assume "dropWhile is_space s = c # r"
  moreover have "length (dropWhile is_space s) \<le> length s"
    by (rule length_dropWhile_le)
  moreover have "length (dropWhile (\<lambda>x. \<not> is_space x) r) \<le> length r"
    by (rule length_dropWhile_le)
  ultimately show "(dropWhile (\<lambda>x. \<not> is_space x) r, s) \<in> measure length"
    by simp
qed

text \<open>A token that is one symbol of the rating alphabet.\<close>

definition rating_token :: "ustr \<Rightarrow> bool" where
  "rating_token t \<longleftrightarrow> (case t of [c] \<Rightarrow> is_rating c | _ \<Rightarrow> False)"

text \<open>
  A line that, after trimming, is rating symbols separated by whitespace, at least two
  of them.
\<close>

definition rating_row_line :: "ustr \<Rightarrow> bool" where
  "rating_row_line l \<longleftrightarrow> 2 \<le> length (tokens l) \<and> list_all rating_token (tokens l)"

text \<open>A line that, after trimming, is five or more rating symbols and nothing else.\<close>

definition rating_clump_line :: "ustr \<Rightarrow> bool" where
  "rating_clump_line l \<longleftrightarrow> 5 \<le> length (strip l) \<and> list_all is_rating (strip l)"

text \<open>
  A line with other text in it: it has a character that is neither a rating symbol nor
  whitespace.
\<close>

definition prose_line :: "ustr \<Rightarrow> bool" where
  "prose_line l \<longleftrightarrow> list_ex (\<lambda>c. \<not> is_rating c \<and> \<not> is_space c) l"

text \<open>A line that holds one of the three table header phrases.\<close>

definition table_row_line :: "ustr \<Rightarrow> bool" where
  "table_row_line l \<longleftrightarrow>
     sublist row_love_money_business l \<or> sublist row_promotion_job_sale l \<or>
     sublist row_clumped l"

text \<open>
  Three lines: the prose of the specification's example (\<open>U+C0C1 U+D488 ...\<close>, where
  the rating symbol \<open>U+C0C1\<close> is part of two words), a rating row \<open>"H M L H M"\<close> and
  a clump \<open>"HHHHH"\<close>; and the text made of them.
\<close>

definition prose_example :: ustr where
  "prose_example = [0xC0C1, 0xD488, 0x20, 0xAC00, 0xACA9, 0xC740, 0x20, 0xC0C1, 0xD55C, 0xC120]"

definition row_example :: ustr where
  "row_example = [0xC0C1, 0x20, 0xC911, 0x20, 0xD558, 0x20, 0xC0C1, 0x20, 0xC911]"

definition clump_example :: ustr where
  "clump_example = [0xC0C1, 0xC0C1, 0xC0C1, 0xC0C1, 0xC0C1]"

definition rating_text :: ustr where
  "rating_text =
    [0xC0C1, 0xD488, 0x20, 0xAC00, 0xACA9, 0xC740, 0x20, 0xC0C1, 0xD55C, 0xC120, NL,
     0xC0C1, 0x20, 0xC911, 0x20, 0xD558, 0x20, 0xC0C1, 0x20, 0xC911, NL,
     0xC0C1, 0xC0C1, 0xC0C1, 0xC0C1, 0xC0C1]"

text \<open>
  A line where a rating symbol stands before the table header phrase
  \<open>U+C0AC U+B791 ' ' U+B3C8 ' ' U+C0AC U+C5C5\<close>.
\<close>

definition rating_in_table_row :: ustr where
  "rating_in_table_row = [0xC0C1, 0x20, 0xC0AC, 0xB791, 0x20, 0xB3C8, 0x20, 0xC0AC, 0xC5C5]"

text \<open>
  The lines of a document, in the words of the specification. An index is digits and a
  period, after optional whitespace; \<open>index_prefix\<close> gives the rest of the line behind
  it.
\<close>

definition index_prefix :: "ustr \<Rightarrow> ustr option" where
  "index_prefix l =
     (let r = dropWhile is_space l in
      if takeWhile is_digit r = [] then None
      else case dropWhile is_digit r of
        [] \<Rightarrow> None
      | c # rest \<Rightarrow> if c = 0x2E then Some rest else None)"

text \<open>
  A well-formed header line: a numeric index, a period, whitespace, then a label on the
  same line.
\<close>

definition header_line :: "ustr \<Rightarrow> bool" where
  "header_line l \<longleftrightarrow>
     (case index_prefix l of
        None \<Rightarrow> False
      | Some rest \<Rightarrow> takeWhile is_space rest \<noteq> [] \<and> dropWhile is_space rest \<noteq> [])"

text \<open>A line that is an index and nothing else (whitespace apart).\<close>

definition bare_index_line :: "ustr \<Rightarrow> bool" where
  "bare_index_line l \<longleftrightarrow>
     (case index_prefix l of
        None \<Rightarrow> False
      | Some rest \<Rightarrow> dropWhile is_space rest = [])"

text \<open>
  Every header line is followed, before the next header line, by a line with the marker
  \<open>"1) K"\<close>.
\<close>

fun marked :: "ustr list \<Rightarrow> bool" where
  "marked [] = True"
| "marked (l # ls) =
     ((header_line l \<longrightarrow>
         list_ex (sublist marker_keyword) (takeWhile (\<lambda>k. \<not> header_line k) ls)) \<and>
      marked ls)"

text \<open>The first line of a block.\<close>

definition first_line :: "ustr \<Rightarrow> ustr" where
  "first_line b = takeWhile (\<lambda>c. c \<noteq> NL) b"

text \<open>
  The text of the lines, a newline before each (the text that \<open>parse_full_text\<close>
  searches); and the blank lines that a match of the header pattern may run over before
  it reaches the index.
\<close>

definition lines_text :: "ustr list \<Rightarrow> ustr" where
  "lines_text ls = concat (map ((#) NL) ls)"

definition pending :: "ustr \<Rightarrow> bool" where
  "pending p \<longleftrightarrow> (p = [] \<or> hd p = NL) \<and> (\<forall>c\<in>set p. is_space c)"

text \<open>
  A document with two headers, the second one indented and behind an empty line, and
  with prose that starts with a number (\<open>"3.5 x"\<close>):
  \<open>"intro\n1. A\n1) K\nk\n\n  2. B \n3.5 x\n1) K"\<close>.
\<close>

definition two_cards_text :: ustr where
  "two_cards_text =
    [0x69, 0x6E, 0x74, 0x72, 0x6F, NL,
     0x31, 0x2E, 0x20, 0x41, NL,
     0x31, 0x29, 0x20, 0xD0A4, 0xC6CC, 0xB4DC, NL,
     0x6B, NL,
     NL,
     0x20, 0x20, 0x32, 0x2E, 0x20, 0x42, 0x20, NL,
     0x33, 0x2E, 0x35, 0x20, 0x78, NL,
     0x31, 0x29, 0x20, 0xD0A4, 0xC6CC, 0xB4DC]"

text \<open>
  A document with one header and a line that is a bare index: \<open>"1. A\n1) K\n7.\n1) K"\<close>.
\<close>

definition stray_index_text :: ustr where
  "stray_index_text =
    [0x31, 0x2E, 0x20, 0x41, NL, 0x31, 0x29, 0x20, 0xD0A4, 0xC6CC, 0xB4DC, NL,
     0x37, 0x2E, NL, 0x31, 0x29, 0x20, 0xD0A4, 0xC6CC, 0xB4DC]"

section \<open>Auxiliary facts\<close>

lemmas word_defs =
  n1_def n2_def n3_def n4_def w_keyword_def w_pictorial_def w_explanation_def
  w_practical_def w_consult_def w_tip_def marker_keyword_def

lemma split_by_not_Nil: "split_by P s \<noteq> []"
  by (induction s) (auto split: list.splits)

lemma sub_newline_before_filter:
  "filter (\<lambda>c. c \<noteq> NL) (sub_newline_before P prev s) = filter (\<lambda>c. c \<noteq> NL) s"
proof (induction P prev s rule: sub_newline_before.induct)
  case (1 P prev)
  show ?case by simp
next
  case (2 P prev c s)
  show ?case
  proof (cases "if prev = Some NL then None else P (c # s)")
    case None
    with 2 show ?thesis by auto
  next
    case (Some k)
    show ?thesis
    proof (cases k)
      case 0
      with Some 2 show ?thesis by auto
    next
      case (Suc n)
      have "filter (\<lambda>c. c \<noteq> NL) (take n s) @ filter (\<lambda>c. c \<noteq> NL) (drop n s)
            = filter (\<lambda>c. c \<noteq> NL) s"
        by (metis append_take_drop_id filter_append)
      with Some Suc 2 show ?thesis by auto
    qed
  qed
qed

lemma sub_newline_before_subseq: "subseq s (sub_newline_before P prev s)"
proof (induction P prev s rule: sub_newline_before.induct)
  case (1 P prev)
  show ?case by simp
next
  case (2 P prev c s)
  show ?case
  proof (cases "if prev = Some NL then None else P (c # s)")
    case None
    with 2 show ?thesis by simp
  next
    case (Some k)
    show ?thesis
    proof (cases k)
      case 0
      with Some 2 show ?thesis by simp
    next
      case (Suc n)
      define R where "R = sub_newline_before P (Some (last (c # take n s))) (drop n s)"
      from Some Suc 2 have "subseq (drop n s) R"
        unfolding R_def by simp
      then have "subseq (take n s @ drop n s) (take n s @ R)"
        by (intro list_emb_append_mono) simp_all
      then have "subseq s (take n s @ R)"
        by (simp only: append_take_drop_id)
      then have "subseq (c # s) (c # take n s @ R)"
        by (rule subseq_Cons2)
      then have "subseq (c # s) (NL # c # take n s @ R)"
        by (rule list_emb_Cons)
      moreover have "sub_newline_before P prev (c # s) = NL # c # take n s @ R"
        using Some Suc unfolding R_def by (simp del: last.simps)
      ultimately show ?thesis by simp
    qed
  qed
qed


lemma add_pages_acc:
  "add_pages f acc pages =
     acc @ concat (map (\<lambda>t. f t @ [NL]) (nonempty_pages pages))"
  by (induction pages arbitrary: acc)
     (auto simp: nonempty_pages_def List.map_filter_simps split: option.splits)

lemma concat_newlines_join:
  "ts \<noteq> [] \<Longrightarrow> concat (map (\<lambda>t. t @ [NL]) ts) = join_nl ts @ [NL]"
  by (induction ts rule: join_nl.induct) simp_all

text \<open>The definitions that evaluate the functions on a given text.\<close>

lemmas eval_defs =
  parse_card_block_def block_name_def block_keywords_def block_meaning_up_def
  block_meaning_down_def build_meaning_up_def keywords_match_def desc_match_def
  practical_match_def tip_match_def matches_def lits_def lit_def at_eos_def
  keywords_list_def keyword_of_def clean_text_def cleaned_lines_def skipped_line_def
  match_rating_row_def match_rating_clump_def strip_def split_nl_def strip_index_def
  is_space_def is_digit_def digit_zeros_def is_rating_def
  row_love_money_business_def row_promotion_job_sale_def row_clumped_def
  label_desc_def label_practical_def word_defs Let_def sublist_code
  header_parts_def header_match_def segment_def parse_full_text_def
  List.map_filter_simps rating_groups.simps

lemma header_occurs_iff:
  "header_occurs s \<longleftrightarrow> (\<exists>p q. s = p @ NL # q \<and> header_match q \<noteq> None)"
proof (induction s)
  case Nil
  show ?case by simp
next
  case (Cons c s)
  show ?case
  proof
    assume "header_occurs (c # s)"
    then consider "c = NL" "header_match s \<noteq> None" | "header_occurs s" by auto
    then show "\<exists>p q. c # s = p @ NL # q \<and> header_match q \<noteq> None"
    proof cases
      case 1
      then have "c # s = [] @ NL # s \<and> header_match s \<noteq> None" by simp
      then show ?thesis by blast
    next
      case 2
      with Cons obtain p q where "s = p @ NL # q" "header_match q \<noteq> None" by blast
      then have "c # s = (c # p) @ NL # q \<and> header_match q \<noteq> None" by simp
      then show ?thesis by blast
    qed
  next
    assume "\<exists>p q. c # s = p @ NL # q \<and> header_match q \<noteq> None"
    then obtain p q where pq: "c # s = p @ NL # q" "header_match q \<noteq> None" by blast
    show "header_occurs (c # s)"
    proof (cases p)
      case Nil
      with pq show ?thesis by simp
    next
      case (Cons a p')
      with pq have "s = p' @ NL # q" by simp
      with pq Cons.IH show ?thesis by auto
    qed
  qed
qed

lemma split_headers_no_header: "\<not> header_occurs s \<Longrightarrow> split_headers s = [s]"
  by (induction s) auto

lemma split_by_pieces: "p \<in> set (split_by P s) \<Longrightarrow> c \<in> set p \<Longrightarrow> \<not> P c"
proof (induction s arbitrary: p)
  case Nil
  then show ?case by simp
next
  case (Cons a s)
  show ?case
  proof (cases "P a")
    case True
    with Cons show ?thesis by auto
  next
    case False
    obtain l ls where split: "split_by P s = l # ls"
      using split_by_not_Nil [of P s] by (cases "split_by P s") auto
    with Cons.prems False have "p = a # l \<or> p \<in> set ls" by simp
    then show ?thesis
    proof
      assume "p = a # l"
      with Cons.prems have "c = a \<or> c \<in> set l" by simp
      with False Cons.IH [of l] split show ?thesis by auto
    next
      assume "p \<in> set ls"
      with Cons.IH [of p] Cons.prems split show ?thesis by simp
    qed
  qed
qed

lemma set_strip: "set (strip s) \<subseteq> set s"
proof -
  have "set (strip s) = set (dropWhile is_space (rev (dropWhile is_space s)))"
    by (simp add: strip_def)
  also have "\<dots> \<subseteq> set (rev (dropWhile is_space s))"
    by (meson set_dropWhileD subsetI)
  also have "\<dots> \<subseteq> set s"
    using set_dropWhileD by fastforce
  finally show ?thesis .
qed

lemma strip_ends:
  assumes "strip s \<noteq> []"
  shows "\<not> is_space (hd (strip s))" and "\<not> is_space (last (strip s))"
proof -
  define d where "d = dropWhile is_space s"
  define e where "e = dropWhile is_space (rev d)"
  have s: "strip s = rev e" by (simp add: strip_def d_def e_def)
  with assms have e: "e \<noteq> []" by simp
  then have d: "d \<noteq> []" by (auto simp: e_def)
  have "\<not> is_space (hd e)" using e unfolding e_def by (rule hd_dropWhile)
  then show "\<not> is_space (last (strip s))" using e by (simp add: s last_rev)
  have "last e = last (rev d)"
    using e unfolding e_def by (metis append_take_drop_id last_appendR takeWhile_dropWhile_id)
  also have "\<dots> = hd d" using d by (simp add: last_rev)
  finally have "hd (strip s) = hd d" using e by (simp add: s hd_rev)
  moreover have "\<not> is_space (hd d)" using d unfolding d_def by (rule hd_dropWhile)
  ultimately show "\<not> is_space (hd (strip s))" by simp
qed

lemma keyword_of_cases:
  "keyword_of p = strip p \<or> (\<exists>r. strip p = 0x2D # r \<and> keyword_of p = strip r)"
  by (auto simp: keyword_of_def Let_def split: list.splits)

lemma keyword_of_props:
  assumes "keyword_of p \<noteq> []"
  shows "\<not> is_space (hd (keyword_of p))" "\<not> is_space (last (keyword_of p))"
    "set (keyword_of p) \<subseteq> set p"
proof -
  from keyword_of_cases [of p] consider "keyword_of p = strip p"
    | r where "strip p = 0x2D # r" "keyword_of p = strip r" by blast
  then have "\<not> is_space (hd (keyword_of p)) \<and> \<not> is_space (last (keyword_of p)) \<and>
      set (keyword_of p) \<subseteq> set p"
  proof cases
    case 1
    with assms strip_ends [of p] set_strip [of p] show ?thesis by simp
  next
    case 2
    have "set (strip r) \<subseteq> set r" by (rule set_strip)
    also have "\<dots> \<subseteq> set (strip p)" using 2 by auto
    finally have "set (strip r) \<subseteq> set p" using set_strip [of p] by blast
    with 2 assms strip_ends [of r] show ?thesis by simp
  qed
  then show "\<not> is_space (hd (keyword_of p))" "\<not> is_space (last (keyword_of p))"
    "set (keyword_of p) \<subseteq> set p" by simp_all
qed

lemma keywords_list_props:
  assumes "k \<in> set (keywords_list t)"
  shows "k \<noteq> [] \<and> \<not> is_space (hd k) \<and> \<not> is_space (last k) \<and>
         0x2C \<notin> set k \<and> 0x2E \<notin> set k \<and> NL \<notin> set k"
proof -
  from assms obtain p where
    p: "p \<in> set (split_by (\<lambda>c. c = 0x2C \<or> c = 0x2E \<or> c = NL) t)"
    and k: "k = keyword_of p" "k \<noteq> []"
    by (auto simp: keywords_list_def split: if_splits)
  from p have "\<And>c. c \<in> set p \<Longrightarrow> \<not> (c = 0x2C \<or> c = 0x2E \<or> c = NL)"
    by (rule split_by_pieces)
  moreover have "set k \<subseteq> set p" using k keyword_of_props(3) by simp
  ultimately have "0x2C \<notin> set k \<and> 0x2E \<notin> set k \<and> NL \<notin> set k" by blast
  with k keyword_of_props(1,2) show ?thesis by simp
qed

declare rating_groups.simps [simp del]

lemma split_by_snoc:
  "split_by P (s @ [c]) =
     (if P c then split_by P s @ [[]]
      else butlast (split_by P s) @ [last (split_by P s) @ [c]])"
proof (induction s)
  case Nil
  show ?case by simp
next
  case (Cons a s)
  obtain l ls where split: "split_by P s = l # ls"
    using split_by_not_Nil [of P s] by (cases "split_by P s") auto
  show ?case
  proof (cases "P c")
    case True
    with Cons split show ?thesis by simp
  next
    case False
    with Cons split show ?thesis
      by (cases ls) (auto split: list.splits)
  qed
qed

lemma split_by_rev: "split_by P (rev s) = rev (map rev (split_by P s))"
proof (induction s)
  case Nil
  show ?case by simp
next
  case (Cons a s)
  obtain l ls where split: "split_by P s = l # ls"
    using split_by_not_Nil [of P s] by (cases "split_by P s") auto
  have ne: "rev (map rev (split_by P s)) \<noteq> []" using split by simp
  show ?case
  proof (cases "P a")
    case True
    with Cons show ?thesis by (simp add: split_by_snoc)
  next
    case False
    have "split_by P (rev (a # s)) =
        butlast (rev (map rev (l # ls))) @ [last (rev (map rev (l # ls))) @ [a]]"
      using False Cons split by (simp add: split_by_snoc)
    also have "\<dots> = rev (map rev ((a # l) # ls))"
      by (simp add: butlast_append last_rev)
    finally show ?thesis using False split by simp
  qed
qed

lemma join_split_by: "join_nl (split_by (\<lambda>c. c = NL) s) = s"
proof (induction s)
  case Nil
  show ?case by simp
next
  case (Cons a s)
  obtain l ls where split: "split_by (\<lambda>c. c = NL) s = l # ls"
    using split_by_not_Nil [of _ s] by (cases "split_by (\<lambda>c. c = NL) s") auto
  with Cons show ?case by (cases ls) auto
qed

lemma split_by_no_sep: "\<forall>c\<in>set l. \<not> P c \<Longrightarrow> split_by P l = [l]"
  by (induction l) auto

lemma split_by_append_sep:
  "\<forall>c\<in>set l. \<not> P c \<Longrightarrow> P a \<Longrightarrow> split_by P (l @ a # s) = l # split_by P s"
  by (induction l) auto

lemma split_join:
  "ls \<noteq> [] \<Longrightarrow> \<forall>l\<in>set ls. NL \<notin> set l \<Longrightarrow> split_by (\<lambda>c. c = NL) (join_nl ls) = ls"
proof (induction ls rule: join_nl.induct)
  case 1
  then show ?case by simp
next
  case (2 l)
  then show ?case by (auto intro!: split_by_no_sep)
next
  case (3 l k ks)
  then have "split_by (\<lambda>c. c = NL) (l @ NL # join_nl (k # ks)) = l # split_by (\<lambda>c. c = NL) (join_nl (k # ks))"
    by (intro split_by_append_sep) auto
  with 3 show ?case by simp
qed

lemma lines_dropWhile:
  assumes tl: "\<And>c l. is_space c \<Longrightarrow> K (c # l) \<Longrightarrow> K l"
  shows "\<forall>l\<in>set (split_by P z). K l \<Longrightarrow> \<forall>l\<in>set (split_by P (dropWhile is_space z)). K l"
proof (induction z)
  case Nil
  then show ?case by simp
next
  case (Cons c z)
  show ?case
  proof (cases "is_space c")
    case False
    with Cons.prems show ?thesis by simp
  next
    case True
    obtain l ls where split: "split_by P z = l # ls"
      using split_by_not_Nil [of P z] by (cases "split_by P z") auto
    have "\<forall>l\<in>set (split_by P z). K l"
    proof (cases "P c")
      case True
      with Cons.prems show ?thesis by simp
    next
      case False
      with Cons.prems split have "K (c # l)" "\<forall>l\<in>set ls. K l" by simp_all
      with tl [OF True] split show ?thesis by simp
    qed
    with Cons.IH True show ?thesis by simp
  qed
qed

lemma lines_strip:
  assumes hd: "\<And>c l. is_space c \<Longrightarrow> K (c # l) \<Longrightarrow> K l"
    and lst: "\<And>c l. is_space c \<Longrightarrow> K (l @ [c]) \<Longrightarrow> K l"
    and all: "\<forall>l\<in>set (split_by P z). K l"
  shows "\<forall>l\<in>set (split_by P (strip z)). K l"
proof -
  define d where "d = dropWhile is_space z"
  define e where "e = dropWhile is_space (rev d)"
  have d: "\<forall>l\<in>set (split_by P d). K l"
    unfolding d_def using hd all by (rule lines_dropWhile)
  have "\<forall>l\<in>set (split_by P (rev d)). (K \<circ> rev) l"
    using d by (simp add: split_by_rev)
  then have "\<forall>l\<in>set (split_by P e). (K \<circ> rev) l"
    unfolding e_def
  proof (rule lines_dropWhile [rotated])
    fix c l assume "is_space c" "(K \<circ> rev) (c # l)"
    then show "(K \<circ> rev) l" using lst [of c "rev l"] by simp
  qed
  then have "\<forall>l\<in>set (split_by P (rev e)). K l"
    by (simp add: split_by_rev)
  then show ?thesis by (simp add: strip_def d_def e_def)
qed

lemma dropWhile_fixed: "y \<noteq> [] \<Longrightarrow> \<not> P (hd y) \<Longrightarrow> dropWhile P y = y"
  by (cases y) simp_all

lemma strip_fixed:
  assumes "x = [] \<or> (\<not> is_space (hd x) \<and> \<not> is_space (last x))"
  shows "strip x = x"
proof (cases "x = []")
  case True
  then show ?thesis by (simp add: strip_def)
next
  case False
  with assms have a: "\<not> is_space (hd x)" and l: "\<not> is_space (last x)" by simp_all
  have "dropWhile is_space x = x" using False a by (rule dropWhile_fixed)
  moreover have "dropWhile is_space (rev x) = rev x"
    using False l by (intro dropWhile_fixed) (simp_all add: hd_rev)
  ultimately show ?thesis by (simp add: strip_def)
qed

lemma strip_strip: "strip (strip s) = strip s"
  using strip_ends [of s] by (intro strip_fixed) blast

lemma strip_Cons_space: "is_space c \<Longrightarrow> strip (c # l) = strip l"
  by (simp add: strip_def)

lemma strip_snoc_space:
  assumes "is_space c"
  shows "strip (l @ [c]) = strip l"
proof (cases "\<forall>x\<in>set l. is_space x")
  case True
  then have "dropWhile is_space l = []" by simp
  moreover from True assms have "dropWhile is_space (l @ [c]) = []"
    by (simp add: dropWhile_append)
  ultimately show ?thesis by (simp only: strip_def)
next
  case False
  then have "dropWhile is_space (l @ [c]) = dropWhile is_space l @ [c]"
    by (simp add: dropWhile_append)
  with assms show ?thesis by (simp add: strip_def)
qed

lemma rating_groups_snoc_space:
  "is_space c \<Longrightarrow> rating_groups seen (s @ [c]) = rating_groups seen s"
proof (induction seen s rule: rating_groups.induct)
  case (1 seen s)
  show ?case
  proof (cases "dropWhile is_space s")
    case Nil
    then have "\<forall>x\<in>set s. is_space x" by (simp add: dropWhile_eq_Nil_conv)
    with 1(2) have Nil': "dropWhile is_space (s @ [c]) = []" by simp
    have "rating_groups seen s = seen"
      by (subst rating_groups.simps) (simp only: Nil list.case)
    moreover have "rating_groups seen (s @ [c]) = seen"
      by (subst rating_groups.simps) (simp only: Nil' list.case)
    ultimately show ?thesis by simp
  next
    case (Cons a r)
    then have ex: "\<not> (\<forall>x\<in>set s. is_space x)"
      by (metis dropWhile_eq_Nil_conv list.distinct(1))
    then have dw: "dropWhile is_space (s @ [c]) = a # r @ [c]"
      using Cons by (simp add: dropWhile_append)
    from ex obtain x where "x \<in> set s" "\<not> is_space x" by blast
    then have tw: "takeWhile is_space (s @ [c]) = takeWhile is_space s"
      by (rule takeWhile_append1)
    have "rating_groups seen s =
        (takeWhile is_space s \<noteq> [] \<and> is_rating a \<and> rating_groups True r)"
      by (subst rating_groups.simps) (simp only: Cons list.case)
    moreover have "rating_groups seen (s @ [c]) =
        (takeWhile is_space s \<noteq> [] \<and> is_rating a \<and> rating_groups True (r @ [c]))"
      by (subst rating_groups.simps) (simp only: dw tw list.case)
    ultimately show ?thesis using 1(1) [OF Cons 1(2)] by simp
  qed
qed

lemma match_rating_row_Cons_space:
  "is_space c \<Longrightarrow> match_rating_row (c # l) = match_rating_row l"
  by (simp add: match_rating_row_def)

lemma match_rating_row_snoc_space:
  assumes "is_space c"
  shows "match_rating_row (l @ [c]) = match_rating_row l"
proof (cases "dropWhile is_space l")
  case Nil
  then have "\<forall>x\<in>set l. is_space x" by (simp add: dropWhile_eq_Nil_conv)
  with assms have "dropWhile is_space (l @ [c]) = []" by simp
  with Nil show ?thesis by (simp only: match_rating_row_def list.case)
next
  case (Cons a r)
  then have "\<not> (\<forall>x\<in>set l. is_space x)"
    by (metis dropWhile_eq_Nil_conv list.distinct(1))
  then have "dropWhile is_space (l @ [c]) = a # r @ [c]"
    using Cons by (simp add: dropWhile_append)
  with Cons assms show ?thesis
    by (simp only: match_rating_row_def list.case rating_groups_snoc_space)
qed

lemma skipped_line_Cons_space:
  "is_space c \<Longrightarrow> skipped_line l \<Longrightarrow> skipped_line (c # l)"
  unfolding skipped_line_def
  by (elim disjE) (simp_all add: match_rating_row_Cons_space strip_Cons_space sublist_Cons_right)

lemma skipped_line_snoc_space:
  "is_space c \<Longrightarrow> skipped_line l \<Longrightarrow> skipped_line (l @ [c])"
  unfolding skipped_line_def
  by (elim disjE) (simp_all add: match_rating_row_snoc_space strip_snoc_space sublist_snoc)

lemma clean_text_lines:
  "\<forall>l\<in>set (split_nl (clean_text x)). \<not> skipped_line l"
proof (cases "x = [] \<or> cleaned_lines x = []")
  case True
  then have "clean_text x = []" by (auto simp: clean_text_def strip_def)
  then show ?thesis
    by (simp add: split_nl_def skipped_line_def eval_defs)
next
  case False
  have nl: "\<forall>l\<in>set (cleaned_lines x). NL \<notin> set l"
    using split_by_pieces [of _ "\<lambda>c. c = NL" x NL] by (auto simp: cleaned_lines_def split_nl_def)
  with False have "split_nl (join_nl (cleaned_lines x)) = cleaned_lines x"
    unfolding split_nl_def by (intro split_join) auto
  then have "\<forall>l\<in>set (split_nl (join_nl (cleaned_lines x))). \<not> skipped_line l"
    by (simp add: cleaned_lines_def)
  then have "\<forall>l\<in>set (split_by (\<lambda>c. c = NL) (strip (join_nl (cleaned_lines x)))). \<not> skipped_line l"
    unfolding split_nl_def
    by (intro lines_strip [where K = "\<lambda>l. \<not> skipped_line l"])
       (auto dest: skipped_line_Cons_space skipped_line_snoc_space)
  with False show ?thesis by (simp add: clean_text_def split_nl_def)
qed

declare tokens.simps [simp del]

lemma tokens_Nil:
  assumes "dropWhile is_space s = []"
  shows "tokens s = []"
  by (subst tokens.simps) (simp only: assms list.case)

lemma tokens_Cons:
  assumes "dropWhile is_space s = c # r"
  shows "tokens s =
    (c # takeWhile (\<lambda>x. \<not> is_space x) r) # tokens (dropWhile (\<lambda>x. \<not> is_space x) r)"
  by (subst tokens.simps) (simp only: assms list.case)

lemma rating_groups_Nil:
  assumes "dropWhile is_space s = []"
  shows "rating_groups seen s = seen"
  by (subst rating_groups.simps) (simp only: assms list.case)

lemma rating_groups_Cons:
  assumes "dropWhile is_space s = c # r"
  shows "rating_groups seen s =
    (takeWhile is_space s \<noteq> [] \<and> is_rating c \<and> rating_groups True r)"
  by (subst rating_groups.simps) (simp only: assms list.case)

lemma rating_token_Cons: "rating_token (c # t) \<longleftrightarrow> is_rating c \<and> t = []"
  by (cases t) (simp_all add: rating_token_def)

lemma tokens_not_Nil: "s \<noteq> [] \<Longrightarrow> \<not> is_space (hd s) \<Longrightarrow> tokens s \<noteq> []"
  by (cases s) (simp_all add: tokens_Cons)

lemma takeWhile_Nil_iff: "takeWhile P r = [] \<longleftrightarrow> r = [] \<or> \<not> P (hd r)"
  by (cases r) simp_all

lemma rating_groups_tokens:
  "rating_groups seen s \<longleftrightarrow>
     (tokens s = [] \<or> takeWhile is_space s \<noteq> []) \<and> list_all rating_token (tokens s) \<and>
     (seen \<or> tokens s \<noteq> [])"
proof (induction seen s rule: rating_groups.induct)
  case (1 seen s)
  show ?case
  proof (cases "dropWhile is_space s")
    case Nil
    show ?thesis by (simp add: rating_groups_Nil [OF Nil] tokens_Nil [OF Nil])
  next
    case (Cons c r)
    note IH = 1 [OF Cons]
    show ?thesis
    proof (cases "takeWhile (\<lambda>x. \<not> is_space x) r = []")
      case True
      then have dw: "dropWhile (\<lambda>x. \<not> is_space x) r = r"
        by (metis append_Nil takeWhile_dropWhile_id)
      have "tokens r \<noteq> [] \<Longrightarrow> takeWhile is_space r \<noteq> []"
      proof -
        assume "tokens r \<noteq> []"
        then have "r \<noteq> []" using tokens_Nil [of r] by auto
        with True show ?thesis by (cases r) (auto split: if_splits)
      qed
      moreover have "takeWhile is_space r \<noteq> [] \<or> tokens r = [] \<Longrightarrow> True" by simp
      ultimately show ?thesis
        using IH True dw
        by (auto simp: rating_groups_Cons [OF Cons] tokens_Cons [OF Cons] rating_token_Cons)
    next
      case False
      then have r: "r \<noteq> []" "\<not> is_space (hd r)" by (auto simp: takeWhile_Nil_iff)
      then have "tokens r \<noteq> []" by (rule tokens_not_Nil)
      moreover have "takeWhile is_space r = []" using r by (simp add: takeWhile_Nil_iff)
      ultimately show ?thesis
        using IH False
        by (auto simp: rating_groups_Cons [OF Cons] tokens_Cons [OF Cons] rating_token_Cons)
    qed
  qed
qed

lemma match_rating_row_iff: "match_rating_row l \<longleftrightarrow> rating_row_line l"
proof (cases "dropWhile is_space l")
  case Nil
  have "\<not> match_rating_row l" by (simp only: match_rating_row_def Nil list.case) simp
  then show ?thesis by (simp add: rating_row_line_def tokens_Nil [OF Nil])
next
  case (Cons c r)
  show ?thesis
  proof (cases "takeWhile (\<lambda>x. \<not> is_space x) r = []")
    case True
    then have dw: "dropWhile (\<lambda>x. \<not> is_space x) r = r"
      by (metis append_Nil takeWhile_dropWhile_id)
    have "tokens r \<noteq> [] \<Longrightarrow> takeWhile is_space r \<noteq> []"
    proof -
      assume "tokens r \<noteq> []"
      then have "r \<noteq> []" using tokens_Nil [of r] by auto
      with True show ?thesis by (cases r) (auto split: if_splits)
    qed
    moreover have "2 \<le> Suc (length (tokens r)) \<longleftrightarrow> tokens r \<noteq> []"
      by (cases "tokens r") simp_all
    ultimately show ?thesis
      using True dw Cons
      by (auto simp: match_rating_row_def rating_row_line_def tokens_Cons [OF Cons]
            rating_token_Cons rating_groups_tokens)
  next
    case False
    then have r: "r \<noteq> []" "\<not> is_space (hd r)" by (auto simp: takeWhile_Nil_iff)
    then have "tokens r \<noteq> []" by (rule tokens_not_Nil)
    moreover have "takeWhile is_space r = []" using r by (simp add: takeWhile_Nil_iff)
    ultimately show ?thesis
      using False Cons
      by (auto simp: match_rating_row_def rating_row_line_def tokens_Cons [OF Cons]
            rating_token_Cons rating_groups_tokens)
  qed
qed

lemma match_rating_clump_iff: "match_rating_clump (strip l) \<longleftrightarrow> rating_clump_line l"
proof
  assume m: "match_rating_clump (strip l)"
  have "dropWhile is_rating (strip l) = []"
  proof (rule ccontr)
    assume ne: "dropWhile is_rating (strip l) \<noteq> []"
    from m have "at_eos (dropWhile is_rating (strip l))"
      by (simp add: match_rating_clump_def)
    with ne have d: "dropWhile is_rating (strip l) = [NL]"
      by (simp only: at_eos_def) blast
    have "strip l = takeWhile is_rating (strip l) @ [NL]"
      using d by (metis takeWhile_dropWhile_id)
    then have "strip l \<noteq> []" "last (strip l) = NL"
      by (metis snoc_eq_iff_butlast, metis last_snoc)
    with strip_ends(2) [of l] show False by (simp add: is_space_def)
  qed
  then have "\<forall>c\<in>set (strip l). is_rating c" "takeWhile is_rating (strip l) = strip l"
    by (simp_all add: dropWhile_eq_Nil_conv)
  with m show "rating_clump_line l"
    by (simp add: match_rating_clump_def rating_clump_line_def list_all_iff)
next
  assume "rating_clump_line l"
  then have len: "5 \<le> length (strip l)" and r: "\<forall>c\<in>set (strip l). is_rating c"
    by (simp_all add: rating_clump_line_def list_all_iff)
  from r have tw: "takeWhile is_rating (strip l) = strip l" by simp
  from r have dw: "dropWhile is_rating (strip l) = []" by simp
  show "match_rating_clump (strip l)"
    unfolding match_rating_clump_def tw dw at_eos_def using len by simp
qed

lemma skipped_line_iff:
  "skipped_line l \<longleftrightarrow> table_row_line l \<or> rating_row_line l \<or> rating_clump_line l"
  by (simp add: skipped_line_def table_row_line_def match_rating_row_iff
        match_rating_clump_iff disj_assoc)

lemma in_dropWhile: "c \<in> set l \<Longrightarrow> \<not> P c \<Longrightarrow> c \<in> set (dropWhile P l)"
  by (induction l) auto

lemma nonspace_in_strip: "c \<in> set l \<Longrightarrow> \<not> is_space c \<Longrightarrow> c \<in> set (strip l)"
proof -
  assume c: "c \<in> set l" "\<not> is_space c"
  then have "c \<in> set (rev (dropWhile is_space l))" by (simp add: in_dropWhile)
  then have "c \<in> set (dropWhile is_space (rev (dropWhile is_space l)))"
    using c(2) by (rule in_dropWhile)
  then show ?thesis by (simp add: strip_def)
qed

lemma nonspace_in_tokens:
  "c \<in> set s \<Longrightarrow> \<not> is_space c \<Longrightarrow> \<exists>t\<in>set (tokens s). c \<in> set t"
proof (induction s rule: tokens.induct)
  case (1 s)
  from 1(2,3) have "c \<in> set (dropWhile is_space s)" by (rule in_dropWhile)
  then obtain a r where Cons: "dropWhile is_space s = a # r"
    by (cases "dropWhile is_space s") auto
  with \<open>c \<in> set (dropWhile is_space s)\<close> have "c = a \<or> c \<in> set r" by simp
  moreover have "set r = set (takeWhile (\<lambda>x. \<not> is_space x) r) \<union>
      set (dropWhile (\<lambda>x. \<not> is_space x) r)"
    by (metis set_append takeWhile_dropWhile_id)
  ultimately consider "c \<in> set (a # takeWhile (\<lambda>x. \<not> is_space x) r)"
    | "c \<in> set (dropWhile (\<lambda>x. \<not> is_space x) r)" by auto
  then show ?case
  proof cases
    case 1
    then show ?thesis by (simp add: tokens_Cons [OF Cons])
  next
    case 2
    from "1.IH" [OF Cons 2 "1.prems"(2)] show ?thesis
      by (simp add: tokens_Cons [OF Cons])
  qed
qed

lemma prose_line_not_rating:
  assumes "prose_line l"
  shows "\<not> rating_row_line l" and "\<not> rating_clump_line l" and "strip l \<noteq> []"
proof -
  from assms obtain c where c: "c \<in> set l" "\<not> is_rating c" "\<not> is_space c"
    by (auto simp: prose_line_def list_ex_iff)
  from c(1,3) obtain t where t: "t \<in> set (tokens l)" "c \<in> set t"
    using nonspace_in_tokens by blast
  have "\<not> rating_token t"
    using t(2) c(2) by (cases t) (auto simp: rating_token_Cons)
  with t(1) show "\<not> rating_row_line l"
    by (auto simp: rating_row_line_def list_all_iff)
  from c(1,3) have s: "c \<in> set (strip l)" by (rule nonspace_in_strip)
  with c(2) show "\<not> rating_clump_line l"
    by (auto simp: rating_clump_line_def list_all_iff)
  from s show "strip l \<noteq> []" by auto
qed

lemma sublist_join: "l \<in> set ls \<Longrightarrow> sublist l (join_nl ls)"
proof (induction ls rule: join_nl.induct)
  case 1
  then show ?case by simp
next
  case (2 l')
  then show ?case by simp
next
  case (3 l' k ks)
  show ?case
  proof (cases "l = l'")
    case True
    then show ?thesis by simp
  next
    case False
    with 3 have "sublist l (join_nl (k # ks))" by simp
    moreover have "sublist (join_nl (k # ks)) ((l' @ [NL]) @ join_nl (k # ks))"
      by (rule sublist_append_leftI)
    ultimately have "sublist l ((l' @ [NL]) @ join_nl (k # ks))"
      by (rule sublist_order.order_trans)
    then show ?thesis by simp
  qed
qed

lemma dropWhile_keeps_middle:
  assumes "m \<noteq> []" "\<not> P (hd m)"
  shows "\<exists>p'. dropWhile P (p @ m @ q) = p' @ m @ q"
proof (cases "\<forall>x\<in>set p. P x")
  case True
  then have "dropWhile P (p @ m @ q) = dropWhile P (m @ q)" by (simp add: dropWhile_append)
  also have "\<dots> = [] @ m @ q" using assms by (cases m) simp_all
  finally show ?thesis by blast
next
  case False
  then obtain x where "x \<in> set p" "\<not> P x" by blast
  then have "dropWhile P (p @ m @ q) = dropWhile P p @ m @ q" by (rule dropWhile_append1)
  then show ?thesis by blast
qed

lemma sublist_strip:
  assumes "sublist m z" "m \<noteq> []" "\<not> is_space (hd m)" "\<not> is_space (last m)"
  shows "sublist m (strip z)"
proof -
  from assms(1) obtain p q where z: "z = p @ m @ q" by (auto simp: sublist_def)
  from dropWhile_keeps_middle [where P = is_space and p = p and q = q, OF assms(2,3)]
  obtain p' where d: "dropWhile is_space z = p' @ m @ q" unfolding z by blast
  have "rev m \<noteq> []" "\<not> is_space (hd (rev m))" using assms(2,4) by (simp_all add: hd_rev)
  from dropWhile_keeps_middle [where P = is_space and p = "rev q" and q = "rev p'", OF this]
  obtain q' where
    "dropWhile is_space (rev q @ rev m @ rev p') = q' @ rev m @ rev p'" by blast
  then have "strip z = p' @ m @ rev q'"
    by (simp add: strip_def d)
  then show ?thesis by simp
qed

lemma sublist_strip_self: "sublist (strip l) l"
proof -
  define d where "d = dropWhile is_space l"
  have "l = takeWhile is_space l @ d" by (simp add: d_def)
  moreover have "rev d = takeWhile is_space (rev d) @ dropWhile is_space (rev d)" by simp
  then have "d = strip l @ rev (takeWhile is_space (rev d))"
    by (metis d_def rev_append rev_rev_ident strip_def)
  ultimately have "l = takeWhile is_space l @ strip l @ rev (takeWhile is_space (rev d))"
    by simp
  then show ?thesis by (metis sublist_appendI)
qed

lemmas line_defs =
  rating_row_line_def rating_clump_line_def prose_line_def table_row_line_def
  rating_token_def tokens.simps

lemma is_space_NL [simp]: "is_space NL" by (simp add: is_space_def)
lemma not_is_space_period [simp]: "\<not> is_space 0x2E" by (simp add: is_space_def)
lemma not_is_digit_NL [simp]: "\<not> is_digit NL" by (simp add: is_digit_def digit_zeros_def)
lemma not_is_digit_period [simp]: "\<not> is_digit 0x2E" by (simp add: is_digit_def digit_zeros_def)
lemma digit_zeros_apart:
  "list_all (\<lambda>z. 0x30 \<le> z \<and> (z + 9 < 0x85 \<or> 0xA0 < z) \<and> (z + 9 < 0x1680 \<or> 0x1680 < z) \<and>
     (z + 9 < 0x2000 \<or> 0x3000 < z)) digit_zeros"
  by (simp add: digit_zeros_def)

lemma is_digit_not_space:
  assumes "is_digit c"
  shows "\<not> is_space c"
proof -
  have "0x30 \<le> c \<and> (c < 0x85 \<or> 0xA0 < c) \<and> c \<noteq> 0x1680 \<and> (c < 0x2000 \<or> 0x3000 < c)"
  proof (cases "0x1D7CE \<le> c \<and> c \<le> 0x1D7FF")
    case True
    then show ?thesis by simp
  next
    case False
    with assms obtain z where z: "z \<in> set digit_zeros" "z \<le> c" "c \<le> z + 9"
      by (auto simp: is_digit_def list_ex_iff)
    from z(1) digit_zeros_apart
    have "0x30 \<le> z \<and> (z + 9 < 0x85 \<or> 0xA0 < z) \<and> (z + 9 < 0x1680 \<or> 0x1680 < z) \<and>
        (z + 9 < 0x2000 \<or> 0x3000 < z)"
      by (simp add: list_all_iff)
    with z(2,3) show ?thesis by arith
  qed
  then show ?thesis unfolding is_space_def by arith
qed


lemma run_within:
  assumes "dropWhile P l \<noteq> []"
  shows "takeWhile P (l @ r) = takeWhile P l" and "dropWhile P (l @ r) = dropWhile P l @ r"
proof -
  from assms obtain x where x: "x \<in> set l" "\<not> P x"
    by (auto simp: dropWhile_eq_Nil_conv)
  from x show "takeWhile P (l @ r) = takeWhile P l" by (rule takeWhile_append1)
  from x show "dropWhile P (l @ r) = dropWhile P l @ r" by (rule dropWhile_append1)
qed

lemma run_to_end:
  assumes "dropWhile P l = []" and "r = [] \<or> \<not> P (hd r)"
  shows "takeWhile P (l @ r) = l" and "dropWhile P (l @ r) = r"
proof -
  from assms(1) have all: "\<forall>x\<in>set l. P x" by (simp add: dropWhile_eq_Nil_conv)
  from assms(2) have "takeWhile P r = []" "dropWhile P r = r" by (cases r; simp)+
  with all show "takeWhile P (l @ r) = l" "dropWhile P (l @ r) = r"
    by (simp_all add: takeWhile_append dropWhile_append)
qed

text \<open>\<open>header_match\<close> with the runs as lists.\<close>

lemma header_match_runs:
  "header_match s =
     (if takeWhile is_digit (dropWhile is_space s) = [] then None
      else case dropWhile is_digit (dropWhile is_space s) of
        [] \<Rightarrow> None
      | c # r \<Rightarrow>
          if c \<noteq> 0x2E then None
          else (case ws_then_line (length (takeWhile is_space r)) r of
                  None \<Rightarrow> None
                | Some n \<Rightarrow>
                    Some (length (takeWhile is_space s) +
                          length (takeWhile is_digit (dropWhile is_space s)) + 1 + n)))"
proof -
  have 1: "drop (length (takeWhile is_space s)) s = dropWhile is_space s"
    by (simp add: dropWhile_eq_drop)
  have 2: "drop (length (takeWhile is_space s) +
              length (takeWhile is_digit (dropWhile is_space s))) s =
           dropWhile is_digit (dropWhile is_space s)"
    by (metis 1 add.commute drop_drop dropWhile_eq_drop)
  show ?thesis
    unfolding header_match_def Let_def 1 2 by simp
qed

lemma header_match_space_prefix:
  assumes "\<forall>c\<in>set w. is_space c"
  shows "header_match (w @ s) = map_option (\<lambda>n. length w + n) (header_match s)"
proof -
  have tw: "takeWhile is_space (w @ s) = w @ takeWhile is_space s"
    using assms by (simp add: takeWhile_append)
  have dw: "dropWhile is_space (w @ s) = dropWhile is_space s"
    using assms by (simp add: dropWhile_append)
  define A where "A = takeWhile is_digit (dropWhile is_space s)"
  define D where "D = dropWhile is_digit (dropWhile is_space s)"
  show ?thesis
    unfolding header_match_runs [of "w @ s"] header_match_runs [of s] tw dw
      A_def [symmetric] D_def [symmetric]
    by (simp split: list.splits option.splits)
qed

lemma header_match_blank:
  assumes "\<forall>c\<in>set w. is_space c"
  shows "header_match w = None"
proof -
  from assms have dw: "dropWhile is_space w = []" by simp
  show ?thesis unfolding header_match_runs dw by simp
qed

lemma ws_then_line_first:
  assumes "takeWhile (\<lambda>c. c \<noteq> NL) (drop (Suc k) s) \<noteq> []"
  shows "ws_then_line (Suc k) s = Some (Suc k + length (takeWhile (\<lambda>c. c \<noteq> NL) (drop (Suc k) s)))"
  using assms by (simp add: Let_def)

text \<open>
  A line that is not blank, followed by the end of the text or by a newline: the header
  pattern matches at its start exactly when it is a header line, and then it matches the
  line; unless the line is a bare index, where the match depends on what follows.
\<close>

lemma header_match_line:
  assumes nl: "NL \<notin> set l"
    and rest: "rest = [] \<or> hd rest = NL"
    and nonblank: "dropWhile is_space l \<noteq> []"
    and nonbare: "\<not> bare_index_line l"
  shows "header_match (l @ rest) = (if header_line l then Some (length l) else None)"
proof -
  define r0 where "r0 = dropWhile is_space l"
  define ds where "ds = takeWhile is_digit r0"
  have l: "l = takeWhile is_space l @ r0" by (simp add: r0_def)
  have r0: "r0 = ds @ dropWhile is_digit r0" by (simp add: ds_def)
  have tw0: "takeWhile is_space (l @ rest) = takeWhile is_space l"
    and dw0: "dropWhile is_space (l @ rest) = r0 @ rest"
    using run_within [OF nonblank] by (simp_all add: r0_def)
  have rest_digit: "rest = [] \<or> \<not> is_digit (hd rest)" using rest by auto
  have rest_nl: "takeWhile (\<lambda>c. c \<noteq> NL) rest = []" using rest by (cases rest) auto
  show ?thesis
  proof (cases "dropWhile is_digit r0")
    case Nil
    have A: "takeWhile is_digit (r0 @ rest) = r0" and B: "dropWhile is_digit (r0 @ rest) = rest"
      using run_to_end [OF Nil rest_digit] by simp_all
    have "index_prefix l = None"
      unfolding index_prefix_def Let_def r0_def [symmetric] Nil by simp
    then have "\<not> header_line l" by (simp add: header_line_def)
    moreover have "header_match (l @ rest) = None"
      unfolding header_match_runs dw0 A B using rest by (cases rest) auto
    ultimately show ?thesis by simp
  next
    case (Cons c r2)
    then have ne: "dropWhile is_digit r0 \<noteq> []" by simp
    have twd: "takeWhile is_digit (r0 @ rest) = ds"
      and dwd: "dropWhile is_digit (r0 @ rest) = c # r2 @ rest"
      using run_within [OF ne] Cons by (simp_all add: ds_def)
    show ?thesis
    proof (cases "ds \<noteq> [] \<and> c = 0x2E")
      case False
      then have "index_prefix l = None"
        using Cons by (auto simp: index_prefix_def r0_def [symmetric] ds_def [symmetric])
      with False show ?thesis
        unfolding header_match_runs dw0 twd dwd by (auto simp: header_line_def)
    next
      case True
      then have ip: "index_prefix l = Some r2"
        using Cons by (simp add: index_prefix_def r0_def [symmetric] ds_def [symmetric])
      with nonbare have nb: "dropWhile is_space r2 \<noteq> []"
        by (simp add: bare_index_line_def)
      have tws: "takeWhile is_space (r2 @ rest) = takeWhile is_space r2"
        and dws: "dropWhile is_space (r2 @ rest) = dropWhile is_space r2 @ rest"
        using run_within [OF nb] by simp_all
      show ?thesis
      proof (cases "takeWhile is_space r2")
        case Nil
        have "\<not> header_line l" using ip by (simp add: header_line_def Nil)
        moreover have "header_match (l @ rest) = None"
          unfolding header_match_runs dw0 twd dwd using True by (simp add: tws Nil)
        ultimately show ?thesis by simp
      next
        case (Cons a sp)
        define k where "k = length sp"
        have len: "length (takeWhile is_space r2) = Suc k" using Cons by (simp add: k_def)
        have "NL \<notin> set (dropWhile is_space r2)"
        proof
          assume "NL \<in> set (dropWhile is_space r2)"
          then have "NL \<in> set r2" by (rule set_dropWhileD)
          then have "NL \<in> set r0" using r0 \<open>dropWhile is_digit r0 = c # r2\<close>
            by (metis Un_iff list.set_intros(2) set_append)
          then have "NL \<in> set l" using l by (metis Un_iff set_append)
          with nl show False by simp
        qed
        then have "takeWhile (\<lambda>c. c \<noteq> NL) (dropWhile is_space r2) = dropWhile is_space r2"
          by (auto simp: takeWhile_eq_all_conv)
        then have content: "takeWhile (\<lambda>c. c \<noteq> NL) (dropWhile is_space r2 @ rest) =
            dropWhile is_space r2"
          using rest_nl by (simp add: takeWhile_append)
        have "drop (Suc k) (r2 @ rest) = dropWhile is_space r2 @ rest"
          using dws len by (metis dropWhile_eq_drop tws)
        with content nb have "ws_then_line (Suc k) (r2 @ rest) =
            Some (Suc k + length (dropWhile is_space r2))"
          by (simp add: Let_def)
        moreover have "length r2 = Suc k + length (dropWhile is_space r2)"
          using len by (metis length_append takeWhile_dropWhile_id)
        moreover have "length l = length (takeWhile is_space l) + length ds + 1 + length r2"
          using l r0 \<open>dropWhile is_digit r0 = c # r2\<close>
          by (metis One_nat_def add.assoc add_Suc_right length_Cons length_append
                plus_1_eq_Suc)
        moreover have "header_line l"
          using ip Cons nb by (simp add: header_line_def)
        ultimately show ?thesis
          using True unfolding header_match_runs dw0 twd dwd by (simp add: tws tw0 len)
      qed
    qed
  qed
qed


lemma lines_text_split: "lines_text (split_nl s) = NL # s"
proof (induction s)
  case Nil
  show ?case by (simp add: lines_text_def split_nl_def)
next
  case (Cons a s)
  obtain l ls where split: "split_by (\<lambda>c. c = NL) s = l # ls"
    using split_by_not_Nil [of _ s] by (cases "split_by (\<lambda>c. c = NL) s") auto
  with Cons show ?case by (auto simp: lines_text_def split_nl_def)
qed

lemma lines_text_start: "lines_text ls = [] \<or> hd (lines_text ls) = NL"
  by (cases ls) (simp_all add: lines_text_def)

lemma lines_text_Cons: "lines_text (l # ls) = NL # l @ lines_text ls"
  by (simp add: lines_text_def)

lemma split_headers_not_Nil: "split_headers s \<noteq> []"
  by (induction s) (auto split: option.splits list.splits)

lemma split_headers_skip:
  assumes "\<And>a b. g = a @ NL # b \<Longrightarrow> header_match (b @ s) = None"
  shows "split_headers (g @ s) = (g @ hd (split_headers s)) # tl (split_headers s)"
  using assms
proof (induction g)
  case Nil
  show ?case using split_headers_not_Nil [of s] by simp
next
  case (Cons c g)
  have IH: "split_headers (g @ s) = (g @ hd (split_headers s)) # tl (split_headers s)"
  proof (rule Cons.IH)
    fix a b assume "g = a @ NL # b"
    then have "c # g = (c # a) @ NL # b" by simp
    then show "header_match (b @ s) = None" by (rule Cons.prems)
  qed
  have "c = NL \<Longrightarrow> header_match (g @ s) = None"
    using Cons.prems [of "[]" g] by simp
  then have "(if c = NL then header_match (g @ s) else None) = None" by simp
  then show ?case using IH by simp
qed

lemma split_headers_blank:
  assumes "\<forall>c\<in>set p. is_space c"
  shows "split_headers p = [p]"
proof -
  have "split_headers (p @ []) = (p @ hd (split_headers [])) # tl (split_headers [])"
  proof (rule split_headers_skip)
    fix a b assume "p = a @ NL # b"
    with assms have "\<forall>c\<in>set b. is_space c" by auto
    then show "header_match (b @ []) = None" by (simp add: header_match_blank)
  qed
  then show ?thesis by simp
qed

lemma header_line_nonblank:
  assumes "header_line l"
  shows "dropWhile is_space l \<noteq> []"
proof
  assume d: "dropWhile is_space l = []"
  have "index_prefix l = None"
    unfolding index_prefix_def Let_def d by simp
  with assms show False by (simp add: header_line_def)
qed

lemma blank_not_header:
  assumes "dropWhile is_space l = []"
  shows "\<not> header_line l"
  using assms header_line_nonblank by blast

lemma split_headers_header:
  assumes p: "pending p" and nl: "NL \<notin> set l" and h: "header_line l"
    and nb: "\<not> bare_index_line l" and rest: "rest = [] \<or> hd rest = NL"
  shows "split_headers (p @ NL # l @ rest) = [] # tl (p @ NL # l) # split_headers rest"
proof -
  have m: "header_match (l @ rest) = Some (length l)"
    using header_match_line [OF nl rest header_line_nonblank [OF h] nb] h by simp
  show ?thesis
  proof (cases p)
    case Nil
    with m show ?thesis by simp
  next
    case (Cons a pe)
    with p have a: "a = NL" and pe: "\<forall>c\<in>set (pe @ [NL]). is_space c"
      by (auto simp: pending_def)
    have "header_match ((pe @ [NL]) @ l @ rest) = Some (length (pe @ [NL]) + length l)"
      unfolding header_match_space_prefix [OF pe] m by simp
    then have "header_match (pe @ NL # l @ rest) = Some (length (pe @ NL # l))" by simp
    moreover have "take (length (pe @ NL # l)) ((pe @ NL # l) @ rest) = pe @ NL # l"
      by (simp del: append_assoc)
    moreover have "drop (length (pe @ NL # l)) ((pe @ NL # l) @ rest) = rest"
      by (simp del: append_assoc)
    ultimately show ?thesis using Cons a by simp
  qed
qed

lemma after_newline:
  assumes "p @ NL # l = a @ NL # b" and "NL \<notin> set l"
  shows "\<exists>w. b = w @ l \<and> set w \<subseteq> insert NL (set p)"
  using assms
proof (induction p arbitrary: a)
  case Nil
  show ?case
  proof (cases a)
    case Nil
    with Nil.prems have "b = [] @ l" by simp
    then show ?thesis by blast
  next
    case (Cons x a')
    with Nil.prems have "l = a' @ NL # b" by simp
    with Nil.prems(2) show ?thesis by simp
  qed
next
  case (Cons c p)
  show ?case
  proof (cases a)
    case Nil
    with Cons.prems have "b = (p @ [NL]) @ l" by simp
    moreover have "set (p @ [NL]) \<subseteq> insert NL (set (c # p))" by auto
    ultimately show ?thesis by blast
  next
    case (Cons x a')
    with Cons.prems have "p @ NL # l = a' @ NL # b" by simp
    from Cons.IH [OF this Cons.prems(2)] obtain w where
      "b = w @ l" "set w \<subseteq> insert NL (set p)" by blast
    then have "b = w @ l \<and> set w \<subseteq> insert NL (set (c # p))" by auto
    then show ?thesis by blast
  qed
qed

lemma split_headers_plain:
  assumes p: "pending p" and nl: "NL \<notin> set l" and h: "\<not> header_line l"
    and nb: "\<not> bare_index_line l" and nonblank: "dropWhile is_space l \<noteq> []"
    and rest: "rest = [] \<or> hd rest = NL"
  shows "split_headers (p @ NL # l @ rest) =
           (p @ NL # l @ hd (split_headers rest)) # tl (split_headers rest)"
proof -
  have "split_headers ((p @ NL # l) @ rest) =
      ((p @ NL # l) @ hd (split_headers rest)) # tl (split_headers rest)"
  proof (rule split_headers_skip)
    fix a b assume "p @ NL # l = a @ NL # b"
    from after_newline [OF this nl] obtain w where
      w: "b = w @ l" "set w \<subseteq> insert NL (set p)" by blast
    with p have "\<forall>c\<in>set w. is_space c" by (auto simp: pending_def)
    then have "header_match (w @ l @ rest) = map_option (\<lambda>n. length w + n) (header_match (l @ rest))"
      by (rule header_match_space_prefix)
    also have "header_match (l @ rest) = None"
      using header_match_line [OF nl rest nonblank nb] h by simp
    finally show "header_match (b @ rest) = None" using w by simp
  qed
  then show ?thesis by simp
qed


lemma marker_nonblank:
  assumes "sublist marker_keyword l"
  shows "dropWhile is_space l \<noteq> []"
proof -
  have "0x31 \<in> set marker_keyword" by (simp add: word_defs)
  with assms have "0x31 \<in> set l" using set_mono_sublist by blast
  moreover have "\<not> is_space 0x31" by (simp add: is_space_def)
  ultimately show ?thesis by (auto simp: dropWhile_eq_Nil_conv)
qed

lemma pending_blank_line:
  assumes "pending p" and "dropWhile is_space k = []"
  shows "pending (p @ NL # k)"
proof -
  from assms(2) have "\<forall>c\<in>set k. is_space c" by (simp add: dropWhile_eq_Nil_conv)
  with assms(1) show ?thesis by (cases p) (auto simp: pending_def)
qed

lemma pending_Nil: "pending []"
  by (simp add: pending_def)

lemma strip_space_prefix:
  assumes "\<forall>c\<in>set w. is_space c"
  shows "strip (w @ k) = strip k"
  using assms by (simp add: strip_def dropWhile_append)

lemma strip_group:
  assumes "pending p"
  shows "strip (tl (p @ NL # k)) = strip k"
proof (cases p)
  case Nil
  then show ?thesis by simp
next
  case (Cons a pe)
  with assms have "\<forall>c\<in>set (pe @ [NL]). is_space c" by (auto simp: pending_def)
  then have "strip ((pe @ [NL]) @ k) = strip k" by (rule strip_space_prefix)
  with Cons show ?thesis by simp
qed

lemma gap_holds_marker:
  assumes "\<forall>k\<in>set ls. NL \<notin> set k \<and> \<not> bare_index_line k" and "pending p"
    and "l \<in> set (takeWhile (\<lambda>k. \<not> header_line k) ls)" and "sublist marker_keyword l"
  shows "sublist marker_keyword (hd (split_headers (p @ lines_text ls)))"
  using assms
proof (induction ls arbitrary: p)
  case Nil
  then show ?case by simp
next
  case (Cons k ls)
  from Cons.prems(1) have k: "NL \<notin> set k" "\<not> bare_index_line k"
    and ls: "\<forall>k\<in>set ls. NL \<notin> set k \<and> \<not> bare_index_line k" by simp_all
  show ?case
  proof (cases "header_line k")
    case True
    with Cons.prems(3) show ?thesis by simp
  next
    case False
    with Cons.prems(3) have l: "l = k \<or> l \<in> set (takeWhile (\<lambda>k. \<not> header_line k) ls)"
      by auto
    show ?thesis
    proof (cases "dropWhile is_space k = []")
      case True
      with Cons.prems(4) marker_nonblank have "l \<noteq> k" by blast
      with l have "l \<in> set (takeWhile (\<lambda>k. \<not> header_line k) ls)" by simp
      from Cons.IH [OF ls pending_blank_line [OF Cons.prems(2) True] this Cons.prems(4)]
      show ?thesis by (simp add: lines_text_Cons)
    next
      case nonblank: False
      have hd: "hd (split_headers (p @ lines_text (k # ls))) =
          p @ NL # k @ hd (split_headers (lines_text ls))"
        using split_headers_plain [OF Cons.prems(2) k(1) False k(2) nonblank lines_text_start]
        by (simp add: lines_text_Cons)
      from l show ?thesis
      proof
        assume "l = k"
        with Cons.prems(4) have "sublist marker_keyword k" by simp
        moreover have "sublist k ((p @ [NL]) @ k @ hd (split_headers (lines_text ls)))"
          by (rule sublist_appendI)
        ultimately have "sublist marker_keyword
            ((p @ [NL]) @ k @ hd (split_headers (lines_text ls)))"
          by (rule sublist_order.order_trans)
        with hd show ?thesis by simp
      next
        assume "l \<in> set (takeWhile (\<lambda>k. \<not> header_line k) ls)"
        from Cons.IH [OF ls pending_Nil this Cons.prems(4)]
        have "sublist marker_keyword (hd (split_headers (lines_text ls)))" by simp
        moreover have "sublist (hd (split_headers (lines_text ls)))
            ((p @ NL # k) @ hd (split_headers (lines_text ls)))"
          by (rule sublist_append_leftI)
        ultimately have "sublist marker_keyword
            ((p @ NL # k) @ hd (split_headers (lines_text ls)))"
          by (rule sublist_order.order_trans)
        with hd show ?thesis by simp
      qed
    qed
  qed
qed

lemma first_line_block: "NL \<notin> set h \<Longrightarrow> first_line (h @ NL # g) = h"
  by (simp add: first_line_def takeWhile_append)

lemma blocks_of_lines:
  assumes "\<forall>k\<in>set ls. NL \<notin> set k \<and> \<not> bare_index_line k" and "pending p"
    and "marked ls"
  shows "map first_line (card_blocks (tl (split_headers (p @ lines_text ls)))) =
           map strip (filter header_line ls)"
  using assms
proof (induction ls arbitrary: p)
  case Nil
  from Nil.prems(2) have "\<forall>c\<in>set p. is_space c" by (simp add: pending_def)
  then have "split_headers p = [p]" by (rule split_headers_blank)
  then show ?case by (simp add: lines_text_def)
next
  case (Cons k ls)
  from Cons.prems(1) have k: "NL \<notin> set k" "\<not> bare_index_line k"
    and ls: "\<forall>k\<in>set ls. NL \<notin> set k \<and> \<not> bare_index_line k" by simp_all
  from Cons.prems(3) have m: "marked ls" by simp
  note IH0 = Cons.IH [OF ls pending_Nil m]
  show ?case
  proof (cases "header_line k")
    case True
    define R where "R = split_headers (lines_text ls)"
    define fb where "fb = strip k @ NL # hd R"
    have R: "R = hd R # tl R" using split_headers_not_Nil [of "lines_text ls"]
      by (simp add: R_def)
    have parts: "tl (split_headers (p @ lines_text (k # ls))) = tl (p @ NL # k) # R"
      using split_headers_header [OF Cons.prems(2) k(1) True k(2) lines_text_start]
      by (simp add: lines_text_Cons R_def)
    from Cons.prems(3) True obtain l where
      l: "l \<in> set (takeWhile (\<lambda>k. \<not> header_line k) ls)" "sublist marker_keyword l"
      by (auto simp: list_ex_iff)
    from gap_holds_marker [OF ls pending_Nil l]
    have "sublist marker_keyword (hd R)" by (simp add: R_def)
    moreover have "sublist (hd R) ((strip k @ [NL]) @ hd R)" by (rule sublist_append_leftI)
    ultimately have "sublist marker_keyword ((strip k @ [NL]) @ hd R)"
      by (rule sublist_order.order_trans)
    then have marker: "sublist marker_keyword fb" by (simp add: fb_def)
    have "card_blocks (tl (p @ NL # k) # hd R # tl R) = fb # card_blocks (tl R)"
      using marker by (simp add: strip_group [OF Cons.prems(2)] fb_def Let_def)
    with R parts have "card_blocks (tl (split_headers (p @ lines_text (k # ls)))) =
        fb # card_blocks (tl R)" by simp
    moreover have "NL \<notin> set (strip k)" using k(1) set_strip [of k] by blast
    then have "first_line fb = strip k" unfolding fb_def by (rule first_line_block)
    moreover have "map first_line (card_blocks (tl R)) = map strip (filter header_line ls)"
      using IH0 by (simp add: R_def)
    ultimately show ?thesis using True by simp
  next
    case False
    show ?thesis
    proof (cases "dropWhile is_space k = []")
      case True
      from Cons.IH [OF ls pending_blank_line [OF Cons.prems(2) True] m] False
      show ?thesis by (simp add: lines_text_Cons)
    next
      case nonblank: False
      have "tl (split_headers (p @ lines_text (k # ls))) = tl (split_headers (lines_text ls))"
        using split_headers_plain [OF Cons.prems(2) k(1) False k(2) nonblank lines_text_start]
        by (simp add: lines_text_Cons)
      with IH0 False show ?thesis by simp
    qed
  qed
qed

lemmas header_defs =
  index_prefix_def header_line_def bare_index_line_def first_line_def

section \<open>The claims\<close>

text \<open>
  C8. The repair \<open>preprocess_pypdf\<close> only inserts newlines: the text and the repaired
  text are the same once every newline is deleted, and the text is a subsequence of the
  repaired text (so no character of it, newline or not, is removed or moved).
\<close>

theorem preprocess_pypdf_only_inserts_newlines:
  "filter (\<lambda>c. c \<noteq> NL) (preprocess_pypdf text) = filter (\<lambda>c. c \<noteq> NL) text \<and>
   subseq text (preprocess_pypdf text)"
proof
  show "filter (\<lambda>c. c \<noteq> NL) (preprocess_pypdf text) = filter (\<lambda>c. c \<noteq> NL) text"
    by (simp add: preprocess_pypdf_def Let_def sub_newline_before_filter)
  have step: "\<And>P a b. subseq a b \<Longrightarrow> subseq a (sub_newline_before P None b)"
    using sub_newline_before_subseq subseq_order.order_trans by blast
  show "subseq text (preprocess_pypdf text)"
    unfolding preprocess_pypdf_def Let_def
    by (intro step) simp
qed

text \<open>
  C1. \<open>parse_card_block\<close> returns \<open>None\<close> exactly when the keywords, \<open>meaning_up\<close> and
  \<open>meaning_down\<close> it extracts from the block are all empty; a record that it returns
  holds these three values, and one of them is not empty.
\<close>

theorem parse_card_block_None_iff:
  "(parse_card_block block = None \<longleftrightarrow>
      block_keywords block = [] \<and> block_meaning_up block = [] \<and>
      block_meaning_down block = []) \<and>
   (\<forall>r. parse_card_block block = Some r \<longrightarrow>
      keywords r = block_keywords block \<and> meaning_up r = block_meaning_up block \<and>
      meaning_down r = block_meaning_down block \<and>
      (keywords r \<noteq> [] \<or> meaning_up r \<noteq> [] \<or> meaning_down r \<noteq> []))"
proof (cases "split_nl (strip block)")
  case Nil
  then show ?thesis by (simp add: split_nl_def split_by_not_Nil)
next
  case (Cons first_line rest)
  then show ?thesis by (auto simp: parse_card_block_def)
qed

text \<open>
  Witness of C1: the block \<open>"1) K a"\<close> gives a record whose only content is the
  keyword \<open>a\<close>.
\<close>

theorem parse_card_block_None_iff_witness:
  "parse_card_block keyword_block =
     Some \<lparr>card_name = [], meaning_up = [], meaning_down = [], keywords = [[0x61]]\<rparr> \<and>
   block_keywords keyword_block = [[0x61]]"
proof -
  have "parse_card_block keyword_block =
     Some \<lparr>card_name = [], meaning_up = [], meaning_down = [], keywords = [[0x61]]\<rparr>"
    by (simp add: keyword_block_def eval_defs)
  with parse_card_block_None_iff [of keyword_block] show ?thesis
    by simp
qed

text \<open>
  C3. On the block of the specification's example, \<open>parse_card_block\<close> returns the
  name \<open>"Entity A"\<close>, the keywords \<open>kw1\<close> and \<open>kw2\<close>, as \<open>meaning_up\<close> the labeled
  block of section 2, which is the label \<open>"[P E]"\<close> (the bracket \<open>0x5B\<close>, the words
  \<open>U+D68C U+D654 U+C801\<close> and \<open>U+C124 U+BA85\<close> with a blank between them, the bracket
  \<open>0x5D\<close>), a newline and \<open>"text-b"\<close>, and as \<open>meaning_down\<close> the text \<open>"tip-d"\<close>.
  Every character of the result is written out.
\<close>

theorem parse_card_block_example:
  "parse_card_block example_block =
     Some \<lparr>card_name = [0x45, 0x6E, 0x74, 0x69, 0x74, 0x79, 0x20, 0x41],
           meaning_up =
             [0x5B, 0xD68C, 0xD654, 0xC801, 0x20, 0xC124, 0xBA85, 0x5D, NL,
              0x74, 0x65, 0x78, 0x74, 0x2D, 0x62],
           meaning_down = [0x74, 0x69, 0x70, 0x2D, 0x64],
           keywords = [[0x6B, 0x77, 0x31], [0x6B, 0x77, 0x32]]\<rparr>"
  by (simp add: example_block_def eval_defs)



text \<open>
  C7, as the code has it. For every backend, the document text is made of the pages
  that are not empty, in their order, each repaired (by \<open>preprocess_pypdf\<close> for PyPDF,
  not at all for the other two) and each followed by a newline: the pages joined by
  newlines and one more newline at the end, or the empty text when no page counts. This
  text is what the strategy passes to \<open>parse_full_text\<close>.
\<close>

theorem full_text_of_pages:
  "full_text_of b pages = concat (map (\<lambda>t. repair_of b t @ [NL]) (nonempty_pages pages)) \<and>
   full_text_of b pages =
     (if nonempty_pages pages = [] then [] else joined_pages b pages @ [NL]) \<and>
   strategy b (Some pages) = parse_full_text (full_text_of b pages)"
proof -
  have 1: "full_text_of b pages =
      concat (map (\<lambda>t. repair_of b t @ [NL]) (nonempty_pages pages))"
    by (simp add: full_text_of_def add_pages_acc)
  have "concat (map (\<lambda>t. t @ [NL]) (map (repair_of b) (nonempty_pages pages))) =
      join_nl (map (repair_of b) (nonempty_pages pages)) @ [NL]"
    if "nonempty_pages pages \<noteq> []"
    using that by (intro concat_newlines_join) simp
  then have 2: "full_text_of b pages =
     (if nonempty_pages pages = [] then [] else joined_pages b pages @ [NL])"
    by (simp add: 1 joined_pages_def comp_def)
  have 3: "strategy b (Some pages) = parse_full_text (full_text_of b pages)"
    by (cases b)
       (simp_all add: full_text_of_def strategy_pdfplumber_def strategy_pymupdf_def
          strategy_pypdf_def)
  show ?thesis using 1 2 3 by simp
qed

text \<open>
  C7 as stated fails: one page \<open>"a"\<close> gives the document text \<open>"a\n"\<close>, which is not
  the pages joined with a newline between them (\<open>"a"\<close>).
\<close>

theorem full_text_of_one_page:
  "full_text_of Pdfplumber [Some [0x61]] \<noteq> joined_pages Pdfplumber [Some [0x61]]"
  by (simp add: full_text_of_def joined_pages_def nonempty_pages_def List.map_filter_simps)

text \<open>
  C10, as the code has it. \<open>parse_full_text\<close> returns no record for the empty text,
  and for every text in which the header pattern does not occur once the newline that
  the function puts before the text is there (so that a header on the first line
  counts as an occurrence).
\<close>

theorem parse_full_text_no_header:
  "parse_full_text [] = [] \<and>
   (\<not> header_occurs (NL # text) \<longrightarrow> parse_full_text text = [])"
proof -
  have "header_parts t = []" if "\<not> header_occurs (NL # t)" for t
    using split_headers_no_header [OF that] by (simp add: header_parts_def)
  moreover have "\<not> header_occurs [NL]"
    by (simp add: header_match_def)
  ultimately show ?thesis
    by (simp add: parse_full_text_def segment_def List.map_filter_simps)
qed

text \<open>
  C10 as stated fails: in \<open>"1. A\n1) K\nk"\<close> the header pattern, which starts with a
  newline, occurs nowhere, and \<open>parse_full_text\<close> returns a record.
\<close>

theorem parse_full_text_first_line_header:
  "\<not> header_occurs first_line_text \<and> parse_full_text first_line_text \<noteq> []"
  by (simp add: first_line_text_def eval_defs)

text \<open>
  Witness of C10: \<open>"ab\n3.5 c"\<close> has no header, and no record comes out of it.
\<close>

theorem parse_full_text_no_header_witness:
  "\<not> header_occurs (NL # plain_text) \<and> parse_full_text plain_text = []"
proof -
  have "\<not> header_occurs (NL # plain_text)"
    by (simp add: plain_text_def eval_defs)
  with parse_full_text_no_header [of plain_text] show ?thesis
    by simp
qed

text \<open>
  C9. Every keyword of a record that \<open>parse_card_block\<close> returns is not empty, starts
  and ends with a character that is no whitespace, and holds no comma, no period and no
  newline.
\<close>

theorem keywords_are_clean:
  assumes "parse_card_block block = Some r" and "k \<in> set (keywords r)"
  shows "k \<noteq> [] \<and> \<not> is_space (hd k) \<and> \<not> is_space (last k) \<and>
         0x2C \<notin> set k \<and> 0x2E \<notin> set k \<and> NL \<notin> set k"
proof -
  from assms(1) have "keywords r = block_keywords block"
    by (auto simp: parse_card_block_def split: list.splits if_splits)
  with assms(2) show ?thesis
    unfolding block_keywords_def by (simp add: keywords_list_props)
qed

text \<open>
  Witness of C9: the block \<open>"1)K\n- x y ,.z\n"\<close> gives the keywords \<open>"x y"\<close> and
  \<open>"z"\<close>.
\<close>

theorem keywords_are_clean_witness:
  "parse_card_block dash_block =
     Some \<lparr>card_name = [0x31, 0x29, 0xD0A4, 0xC6CC, 0xB4DC], meaning_up = [], meaning_down = [],
           keywords = [[0x78, 0x20, 0x79], [0x7A]]\<rparr> \<and>
   \<not> is_space (hd [0x78, 0x20, 0x79]) \<and> \<not> is_space (last [0x78, 0x20, 0x79]) \<and>
   0x2C \<notin> set [0x78, 0x20, 0x79::nat]"
proof -
  have e: "parse_card_block dash_block =
     Some \<lparr>card_name = [0x31, 0x29, 0xD0A4, 0xC6CC, 0xB4DC], meaning_up = [], meaning_down = [],
           keywords = [[0x78, 0x20, 0x79], [0x7A]]\<rparr>"
    by (simp add: dash_block_def eval_defs)
  from keywords_are_clean [OF e, of "[0x78, 0x20, 0x79]"] e show ?thesis
    by simp
qed

text \<open>C6. Cleaning is idempotent: cleaning a cleaned text changes nothing.\<close>

theorem clean_text_idempotent: "clean_text (clean_text x) = clean_text x"
proof (cases "clean_text x = []")
  case True
  then show ?thesis by (simp add: clean_text_def)
next
  case False
  then have x: "x \<noteq> []" by (auto simp: clean_text_def)
  have "cleaned_lines (clean_text x) = split_nl (clean_text x)"
    using clean_text_lines [of x] by (simp add: cleaned_lines_def)
  then have "join_nl (cleaned_lines (clean_text x)) = clean_text x"
    by (simp add: split_nl_def join_split_by)
  with False have "clean_text (clean_text x) = strip (clean_text x)"
    by (simp add: clean_text_def [of "clean_text x"])
  also have "\<dots> = clean_text x"
    using x by (simp add: clean_text_def strip_strip)
  finally show ?thesis .
qed

text \<open>
  C4, as the code has it. Of the lines of a text, \<open>clean_text\<close> removes every line
  that after trimming is rating symbols separated by whitespace (two or more), and every
  line that after trimming is five or more rating symbols and nothing else; no line of
  the cleaned text is of these two kinds. A line where the symbols stand in longer prose
  is kept, and its trimmed text is part of the cleaned text, unless it holds one of the
  three table header phrases, which \<open>clean_text\<close> removes as well.
\<close>

theorem clean_text_rating_rows:
  assumes "l \<in> set (split_nl t)"
  shows "(rating_row_line l \<or> rating_clump_line l \<longrightarrow> l \<notin> set (cleaned_lines t)) \<and>
         (prose_line l \<longrightarrow>
            (l \<in> set (cleaned_lines t) \<longleftrightarrow> \<not> table_row_line l) \<and>
            (\<not> table_row_line l \<longrightarrow> sublist (strip l) (clean_text t))) \<and>
         (\<forall>k\<in>set (split_nl (clean_text t)). \<not> rating_row_line k \<and> \<not> rating_clump_line k)"
proof (intro conjI impI)
  assume "rating_row_line l \<or> rating_clump_line l"
  then show "l \<notin> set (cleaned_lines t)"
    by (auto simp: cleaned_lines_def skipped_line_iff)
next
  assume "prose_line l"
  with assms show "l \<in> set (cleaned_lines t) \<longleftrightarrow> \<not> table_row_line l"
    by (auto simp: cleaned_lines_def skipped_line_iff dest: prose_line_not_rating)
next
  assume p: "prose_line l" and "\<not> table_row_line l"
  with assms have l: "l \<in> set (cleaned_lines t)"
    by (auto simp: cleaned_lines_def skipped_line_iff dest: prose_line_not_rating)
  from p have ne: "strip l \<noteq> []" by (rule prose_line_not_rating)
  with assms have "t \<noteq> []" by (auto simp: split_nl_def strip_def)
  have "sublist (strip l) (join_nl (cleaned_lines t))"
    using sublist_strip_self sublist_join [OF l] by (rule sublist_order.order_trans)
  then have "sublist (strip l) (strip (join_nl (cleaned_lines t)))"
    using ne strip_ends [OF ne] by (rule sublist_strip)
  with \<open>t \<noteq> []\<close> show "sublist (strip l) (clean_text t)"
    by (simp add: clean_text_def)
next
  show "\<forall>k\<in>set (split_nl (clean_text t)). \<not> rating_row_line k \<and> \<not> rating_clump_line k"
    using clean_text_lines [of t] by (simp add: skipped_line_iff)
qed

text \<open>
  Witness of C4: of the three example lines, the rating row and the clump are removed and
  the prose line of the specification is what is left.
\<close>

theorem clean_text_rating_rows_witness:
  "clean_text rating_text = prose_example \<and>
   row_example \<notin> set (cleaned_lines rating_text) \<and>
   clump_example \<notin> set (cleaned_lines rating_text) \<and>
   prose_example \<in> set (cleaned_lines rating_text) \<and>
   sublist (strip prose_example) (clean_text rating_text)"
proof -
  have lines: "split_nl rating_text = [prose_example, row_example, clump_example]"
    by (simp add: rating_text_def prose_example_def row_example_def clump_example_def
          split_nl_def)
  have row: "rating_row_line row_example"
    by (simp add: row_example_def line_defs eval_defs)
  have clump: "rating_clump_line clump_example"
    by (simp add: clump_example_def line_defs eval_defs)
  have prose: "prose_line prose_example" "\<not> table_row_line prose_example"
    by (simp_all add: prose_example_def line_defs eval_defs)
  have "clean_text rating_text = prose_example"
    by (simp add: rating_text_def prose_example_def eval_defs)
  moreover from clean_text_rating_rows [of row_example rating_text] lines row
  have "row_example \<notin> set (cleaned_lines rating_text)" by simp
  moreover from clean_text_rating_rows [of clump_example rating_text] lines clump
  have "clump_example \<notin> set (cleaned_lines rating_text)" by simp
  moreover from clean_text_rating_rows [of prose_example rating_text] lines prose
  have "prose_example \<in> set (cleaned_lines rating_text)"
    "sublist (strip prose_example) (clean_text rating_text)" by simp_all
  ultimately show ?thesis by simp
qed

text \<open>
  C4 as stated fails: a line with a rating symbol in other text is removed when that
  text holds a table header phrase.
\<close>

theorem clean_text_drops_prose_with_table_row:
  "prose_line rating_in_table_row \<and>
   rating_in_table_row \<in> set (split_nl rating_in_table_row) \<and>
   rating_in_table_row \<notin> set (cleaned_lines rating_in_table_row) \<and>
   clean_text rating_in_table_row = []"
  by (simp add: rating_in_table_row_def line_defs eval_defs)

text \<open>
  C2, as the code has it. Take a document of which no line is a bare index (digits and a
  period and nothing else but whitespace), with \<open>N\<close> well-formed header lines, each
  followed before the next header line by a line with the marker \<open>"1) K"\<close>. Then
  segmentation returns exactly \<open>N\<close> blocks, in the order of the document, and the first
  line of each block is its header line, trimmed.
\<close>

theorem segment_covers_headers:
  assumes "\<forall>l\<in>set (split_nl text). \<not> bare_index_line l" and "marked (split_nl text)"
  shows "length (segment text) = length (filter header_line (split_nl text)) \<and>
         map first_line (segment text) = map strip (filter header_line (split_nl text))"
proof -
  have "\<forall>l\<in>set (split_nl text). NL \<notin> set l"
    using split_by_pieces [of _ "\<lambda>c. c = NL" "text" NL] by (auto simp: split_nl_def)
  with assms(1) have "\<forall>k\<in>set (split_nl text). NL \<notin> set k \<and> \<not> bare_index_line k" by simp
  from blocks_of_lines [OF this pending_Nil assms(2)]
  have eq: "map first_line (segment text) = map strip (filter header_line (split_nl text))"
    by (simp add: segment_def header_parts_def lines_text_split drop_Suc)
  have "length (map first_line (segment text)) =
      length (map strip (filter header_line (split_nl text)))"
    by (simp only: eq)
  then have "length (segment text) = length (filter header_line (split_nl text))"
    by (simp only: length_map)
  with eq show ?thesis by simp
qed

text \<open>
  Witness of C2: the document with two headers gives two blocks, which start with
  \<open>"1. A"\<close> and \<open>"2. B"\<close>.
\<close>

theorem segment_covers_headers_witness:
  "filter header_line (split_nl two_cards_text) =
     [[0x31, 0x2E, 0x20, 0x41], [0x20, 0x20, 0x32, 0x2E, 0x20, 0x42, 0x20]] \<and>
   length (segment two_cards_text) = 2 \<and>
   map first_line (segment two_cards_text) =
     [[0x31, 0x2E, 0x20, 0x41], [0x32, 0x2E, 0x20, 0x42]]"
proof -
  have lines: "split_nl two_cards_text =
     [[0x69, 0x6E, 0x74, 0x72, 0x6F], [0x31, 0x2E, 0x20, 0x41],
      [0x31, 0x29, 0x20, 0xD0A4, 0xC6CC, 0xB4DC], [0x6B], [],
      [0x20, 0x20, 0x32, 0x2E, 0x20, 0x42, 0x20], [0x33, 0x2E, 0x35, 0x20, 0x78],
      [0x31, 0x29, 0x20, 0xD0A4, 0xC6CC, 0xB4DC]]"
    by (simp add: two_cards_text_def split_nl_def)
  have headers: "filter header_line (split_nl two_cards_text) =
     [[0x31, 0x2E, 0x20, 0x41], [0x20, 0x20, 0x32, 0x2E, 0x20, 0x42, 0x20]]"
    unfolding lines by (simp add: header_defs eval_defs)
  have bare: "\<forall>l\<in>set (split_nl two_cards_text). \<not> bare_index_line l"
    unfolding lines by (simp add: header_defs eval_defs)
  have marked: "marked (split_nl two_cards_text)"
    unfolding lines by (simp add: header_defs eval_defs)
  from segment_covers_headers [OF bare marked] show ?thesis
    unfolding headers by (simp add: strip_def is_space_def)
qed

text \<open>
  C2 as stated fails: \<open>"1. A\n1) K\n7.\n1) K"\<close> has one well-formed header line,
  followed by the marker, and segmentation returns two blocks: the header pattern also
  matches \<open>"7.\n1) K"\<close>, its \<open>\s+\<close> running over the newline.
\<close>

theorem segment_stray_index:
  "length (filter header_line (split_nl stray_index_text)) = 1 \<and>
   marked (split_nl stray_index_text) \<and>
   length (segment stray_index_text) = 2"
proof -
  have lines: "split_nl stray_index_text =
     [[0x31, 0x2E, 0x20, 0x41], [0x31, 0x29, 0x20, 0xD0A4, 0xC6CC, 0xB4DC],
      [0x37, 0x2E], [0x31, 0x29, 0x20, 0xD0A4, 0xC6CC, 0xB4DC]]"
    by (simp add: stray_index_text_def split_nl_def)
  have "length (filter header_line (split_nl stray_index_text)) = 1"
    unfolding lines by (simp add: header_defs eval_defs)
  moreover have "marked (split_nl stray_index_text)"
    unfolding lines by (simp add: header_defs eval_defs)
  moreover have "length (segment stray_index_text) = 2"
    by (simp add: stray_index_text_def eval_defs)
  ultimately show ?thesis by simp
qed

end
